theory Spec2Isabelle
  imports Main "HOL-Library.Word" "HOL-Library.Multiset"
begin

section \<open>The executable program: \<open>main.go\<close>\<close>

text \<open>
  Outside comments, \<open>main.go\<close> holds the package clause, the import of \<open>fmt\<close>, the
  declaration of the struct type \<open>T\<close> (never used) and
  \<^verbatim>\<open>func main() { fmt.Println("Effective Go") }\<close>.
  There is no \<open>init\<close> function and no package-level variable, so running the program
  is running \<open>main\<close>.

  What a process can observe and change is collected in a record: its arguments, its
  environment, what is left on its standard input, and what it has written to standard
  output and standard error.
\<close>

record world =
  argv :: "string list"
  environ :: "(string \<times> string) list"
  stdin :: string
  stdout :: string
  stderr :: string

text \<open>
  \<open>fmt.Println\<close> writes its operand followed by a newline to standard output. Its two
  results (bytes written, error) are dropped by \<open>main\<close>.
\<close>

definition Println :: "string \<Rightarrow> world \<Rightarrow> world" where
  "Println s w = w\<lparr>stdout := stdout w @ s @ [CHR 0x0A]\<rparr>"

definition main :: "world \<Rightarrow> world" where
  "main w = Println ''Effective Go'' w"

text \<open>What a run of the program adds to standard output.\<close>

definition printed :: "world \<Rightarrow> string" where
  "printed w = drop (length (stdout w)) (stdout (main w))"

section \<open>Channels and requests\<close>

text \<open>
  The notes (the second source file) describe Go channels in their section CHANNELS:
  \<open>make\<close> takes an optional buffer size whose default is zero; a receiver blocks until
  there is data; on an unbuffered channel the sender blocks until the receiver has
  received the value; on a buffered channel the sender blocks only while the buffer is
  full. A channel is modelled by its buffer (oldest value first), its capacity and
  whether it has been closed.

  Go's \<open>int\<close> is a machine integer; it is taken at 64 bits, so \<open>+\<close> wraps.
\<close>

type_synonym go_int = "64 word"

record 'a chan =
  buf :: "'a list"
  cap :: nat
  shut :: bool

definition make_chan :: "nat \<Rightarrow> 'a chan" where
  "make_chan n = \<lparr>buf = [], cap = n, shut = False\<rparr>"

definition has_room :: "'a chan \<Rightarrow> bool" where
  "has_room c = (length (buf c) < cap c)"

definition push :: "'a \<Rightarrow> 'a chan \<Rightarrow> 'a chan" where
  "push v c = c\<lparr>buf := buf c @ [v]\<rparr>"

definition pop :: "'a chan \<Rightarrow> 'a chan" where
  "pop c = c\<lparr>buf := tl (buf c)\<rparr>"

text \<open>
  \<^verbatim>\<open>type Request struct { args []int; f func([]int) int; resultChan chan int }\<close>

  The field \<open>f\<close> is the function from the arguments to the \<open>int\<close> it returns. A
  channel value is a reference; \<open>resultChan\<close> is the address of the channel in the store
  of reply channels.
\<close>

record Request =
  args :: "go_int list"
  f :: "go_int list \<Rightarrow> go_int"
  resultChan :: nat

text \<open>
  \<^verbatim>\<open>func sum(a []int) (s int) { for _, v := range a { s += v }; return }\<close>
  The loop is \<open>sum_loop\<close>, with the named result \<open>s\<close> as accumulator, starting at zero.
\<close>

fun sum_loop :: "go_int list \<Rightarrow> go_int \<Rightarrow> go_int" where
  "sum_loop [] s = s"
| "sum_loop (v # a) s = sum_loop a (s + v)"

definition sum_ints :: "go_int list \<Rightarrow> go_int" where
  "sum_ints a = sum_loop a 0"

section \<open>The semaphore: \<open>sem\<close>, \<open>handle\<close> and the first \<open>Serve\<close>\<close>

text \<open>
  \<^verbatim>\<open>
  var sem = make(chan int, MaxOutstanding)

  func handle(r *Request) {
      sem <- 1    // wait for active queue to drain.
      process(r)  // May take a long time.
      <- sem      // Done; enable next request to run.
  }

  func Serve(queue chan *Request) {
      for req := range queue {
          sem <- 1
          go func(req *Request) {
              process(req)
              <- sem
          }(req)
      }
  }
  \<close>
  \<open>MaxOutstanding\<close> is not declared in the source; it is a parameter. \<open>process\<close> is
  not defined either; here only where control is matters: before it, inside it, after
  it has returned, or unwound because it panicked.

  A goroutine that runs \<open>handle\<close>, or the function literal that \<open>Serve\<close> starts, is at one
  of five places. Each goroutine carries a log of what it has done: the log is not
  program state, it records the history the claims speak about.
\<close>

datatype gpc = AtAcquire | InProcess | AtRelease | Returned | Panicked

datatype gev = Acquire | Enter | Leave | Release

record goroutine =
  pc :: gpc
  req :: Request
  log :: "gev list"

text \<open>
  \<open>Serve\<close> is at the \<open>range\<close> receive, at its \<open>sem <- 1\<close> with the request it received,
  at the \<open>go\<close> statement, or past the loop (the queue was closed and is empty).
\<close>

datatype spc = SRange | SAcquire Request | SGo Request | SDone

record gate =
  sem :: "go_int chan"
  queue :: "Request chan"
  serve :: spc
  thr :: "goroutine list"

definition ginit :: "nat \<Rightarrow> nat \<Rightarrow> gate" where
  "ginit MaxOutstanding qcap =
     \<lparr>sem = make_chan MaxOutstanding, queue = make_chan qcap, serve = SRange, thr = []\<rparr>"

text \<open>
  One atomic step of one goroutine, or of the environment (a call of \<open>handle\<close>, a send
  on \<open>queue\<close>, closing \<open>queue\<close>). On a channel of capacity zero a send completes only
  together with a receive (\<open>AcqSync\<close>, \<open>SAcqSync\<close>, \<open>EnqSync\<close>).
\<close>

datatype gact =
    Call Request | Acq nat | AcqSync nat nat | Ret nat | Pan nat | Rel nat
  | Enq Request | EnqSync Request | CloseQ | Deq | Stop | SAcq | SAcqSync nat | Go

definition at :: "gate \<Rightarrow> nat \<Rightarrow> gpc \<Rightarrow> bool" where
  "at s i p = (i < length (thr s) \<and> pc (thr s ! i) = p)"

definition move :: "nat \<Rightarrow> gpc \<Rightarrow> gev list \<Rightarrow> gate \<Rightarrow> gate" where
  "move i p evs s =
     s\<lparr>thr := (thr s)[i := (thr s ! i)\<lparr>pc := p, log := log (thr s ! i) @ evs\<rparr>]\<rparr>"

fun ranging :: "spc \<Rightarrow> bool" where
  "ranging SRange = True"
| "ranging _ = False"

fun gstep :: "gact \<Rightarrow> gate \<Rightarrow> gate option" where
  "gstep (Call r) s = Some (s\<lparr>thr := thr s @ [\<lparr>pc = AtAcquire, req = r, log = []\<rparr>]\<rparr>)"
| "gstep (Acq i) s =
     (if at s i AtAcquire \<and> has_room (sem s)
      then Some (move i InProcess [Acquire, Enter] (s\<lparr>sem := push 1 (sem s)\<rparr>)) else None)"
| "gstep (AcqSync i j) s =
     (if cap (sem s) = 0 \<and> at s i AtAcquire \<and> at s j AtRelease
      then Some (move i InProcess [Acquire, Enter] (move j Returned [Release] s)) else None)"
| "gstep (Ret i) s =
     (if at s i InProcess then Some (move i AtRelease [Leave] s) else None)"
| "gstep (Pan i) s =
     (if at s i InProcess then Some (move i Panicked [] s) else None)"
| "gstep (Rel i) s =
     (if at s i AtRelease \<and> buf (sem s) \<noteq> []
      then Some (move i Returned [Release] (s\<lparr>sem := pop (sem s)\<rparr>)) else None)"
| "gstep (Enq r) s =
     (if \<not> shut (queue s) \<and> has_room (queue s)
      then Some (s\<lparr>queue := push r (queue s)\<rparr>) else None)"
| "gstep (EnqSync r) s =
     (if \<not> shut (queue s) \<and> cap (queue s) = 0 \<and> ranging (serve s)
      then Some (s\<lparr>serve := SAcquire r\<rparr>) else None)"
| "gstep CloseQ s =
     (if \<not> shut (queue s) then Some (s\<lparr>queue := (queue s)\<lparr>shut := True\<rparr>\<rparr>) else None)"
| "gstep Deq s =
     (if ranging (serve s) \<and> buf (queue s) \<noteq> []
      then Some (s\<lparr>serve := SAcquire (hd (buf (queue s))), queue := pop (queue s)\<rparr>)
      else None)"
| "gstep Stop s =
     (if ranging (serve s) \<and> buf (queue s) = [] \<and> shut (queue s)
      then Some (s\<lparr>serve := SDone\<rparr>) else None)"
| "gstep SAcq s =
     (case serve s of
        SAcquire r \<Rightarrow> if has_room (sem s)
                      then Some (s\<lparr>sem := push 1 (sem s), serve := SGo r\<rparr>) else None
      | _ \<Rightarrow> None)"
| "gstep (SAcqSync j) s =
     (case serve s of
        SAcquire r \<Rightarrow> if cap (sem s) = 0 \<and> at s j AtRelease
                      then Some (move j Returned [Release] (s\<lparr>serve := SGo r\<rparr>)) else None
      | _ \<Rightarrow> None)"
| "gstep Go s =
     (case serve s of
        SGo r \<Rightarrow> Some (s\<lparr>serve := SRange,
                          thr := thr s @ [\<lparr>pc = InProcess, req = r, log = [Acquire, Enter]\<rparr>]\<rparr>)
      | _ \<Rightarrow> None)"

fun grun :: "gact list \<Rightarrow> gate \<Rightarrow> gate option" where
  "grun [] s = Some s"
| "grun (a # as) s = (case gstep a s of None \<Rightarrow> None | Some s' \<Rightarrow> grun as s')"

text \<open>
  The gate's counter is the number of values in \<open>sem\<close>; the task bodies that execute are
  the goroutines inside \<open>process\<close>.
\<close>

definition inUse :: "gate \<Rightarrow> nat" where
  "inUse s = length (buf (sem s))"

definition running :: "gate \<Rightarrow> nat" where
  "running s = length (filter (\<lambda>g. pc g = InProcess) (thr s))"

text \<open>
  Who accounts for the values in \<open>sem\<close>: a goroutine that has sent and not received
  since (a panicked one never will), and \<open>Serve\<close> between its send and its \<open>go\<close>.
\<close>

fun holds :: "gpc \<Rightarrow> bool" where
  "holds AtAcquire = False"
| "holds InProcess = True"
| "holds AtRelease = True"
| "holds Returned = False"
| "holds Panicked = True"

fun reserved :: "spc \<Rightarrow> nat" where
  "reserved (SGo r) = 1"
| "reserved _ = 0"

definition holders :: "gate \<Rightarrow> nat" where
  "holders s = length (filter (\<lambda>g. holds (pc g)) (thr s)) + reserved (serve s)"

definition gate_inv :: "nat \<Rightarrow> gate \<Rightarrow> bool" where
  "gate_inv M s = (cap (sem s) = M \<and> inUse s \<le> M \<and> holders s = inUse s)"

text \<open>The log a goroutine has at each place, if it got there by the code.\<close>

fun history :: "gpc \<Rightarrow> gev list" where
  "history AtAcquire = []"
| "history InProcess = [Acquire, Enter]"
| "history AtRelease = [Acquire, Enter, Leave]"
| "history Returned = [Acquire, Enter, Leave, Release]"
| "history Panicked = [Acquire, Enter]"

definition log_inv :: "gate \<Rightarrow> bool" where
  "log_inv s = list_all (\<lambda>g. log g = history (pc g)) (thr s)"

text \<open>The request of the notes, \<open>&Request{[]int{3, 4, 5}, sum, make(chan int)}\<close>, at address \<open>n\<close>.\<close>

definition request345 :: "nat \<Rightarrow> Request" where
  "request345 n = \<lparr>args = [3, 4, 5], f = sum_ints, resultChan = n\<rparr>"

text \<open>Three calls of \<open>handle\<close> under \<open>MaxOutstanding = 2\<close>: two inside \<open>process\<close>, one done.\<close>

definition gate_demo :: gate where
  "gate_demo =
     \<lparr>sem = \<lparr>buf = [1, 1], cap = 2, shut = False\<rparr>,
      queue = \<lparr>buf = [], cap = 0, shut = False\<rparr>, serve = SRange,
      thr = [\<lparr>pc = InProcess, req = request345 0, log = [Acquire, Enter]\<rparr>,
             \<lparr>pc = InProcess, req = request345 1, log = [Acquire, Enter]\<rparr>,
             \<lparr>pc = Returned, req = request345 2, log = [Acquire, Enter, Leave, Release]\<rparr>]\<rparr>"


section \<open>The worker pool: \<open>handle\<close>, the second \<open>Serve\<close> and the client\<close>

text \<open>
  \<^verbatim>\<open>
  func handle(queue chan *Request) {
      for r := range queue {
          process(r)
      }
  }

  func Serve(clientRequests chan *Request, quit chan bool) {
      // Start handlers
      for i := 0; i < MaxOutstanding; i++ {
          go handle(clientRequests)
      }
      <- quit // Wait to be told to exit
  }

  request := &Request{[]int{3, 4, 5}, sum, make(chan int)}
  // Send request
  clientRequests <- request
  // Wait for response.
  fmt.Printf("answer: %d\n", <- request.resultChan)
  \<close>
  A handler is at its \<open>range\<close> receive, holds a request it has just received, is
  inside \<open>process\<close> with it, or has left the loop. \<open>Serve\<close> is in its loop with the
  loop variable \<open>i\<close> (with \<open>i = MaxOutstanding\<close> it waits at \<open>quit\<close>), or has
  returned. A client has its arguments and function and has made nothing yet, holds its
  request and is at the send, waits for the answer, has the answer, or has given up
  waiting. The client's \<open>Printf\<close> of the answer is not modelled; the client keeps the
  value it received.
\<close>

datatype wpc = WRange | WGot Request | WProcess Request | WExited

datatype srvpc = Looping nat | Quitted

datatype cpc =
    CStart "go_int list" "go_int list \<Rightarrow> go_int"
  | CSend Request
  | CWait Request
  | CDone Request go_int
  | CGone Request

text \<open>
  The state: the queue \<open>clientRequests\<close>, the store of reply channels (a request's
  \<open>resultChan\<close> is an index into it), the goroutines, and whether the program has died
  of a panic (a send on a closed queue). The last four fields are not program state:
  they record, in order, the requests whose send on the queue completed, the requests
  received from the queue, the requests for which \<open>process\<close> was called, and the values
  written on reply channels.
\<close>

record pool =
  clientRequests :: "Request chan"
  replies :: "go_int chan list"
  srv :: srvpc
  workers :: "wpc list"
  clients :: "cpc list"
  crashed :: bool
  submitted :: "Request list"
  pulled :: "Request list"
  begun :: "Request list"
  delivered :: "(nat \<times> go_int) list"

text \<open>
  The queue is made by the caller of \<open>Serve\<close>, which the source does not show: its
  capacity is a parameter. Each client is given the arguments and the function of its
  request.
\<close>

definition pinit :: "nat \<Rightarrow> (go_int list \<times> (go_int list \<Rightarrow> go_int)) list \<Rightarrow> pool" where
  "pinit qcap jobs =
     \<lparr>clientRequests = make_chan qcap, replies = [], srv = Looping 0, workers = [],
      clients = map (\<lambda>(a, g). CStart a g) jobs, crashed = False,
      submitted = [], pulled = [], begun = [], delivered = []\<rparr>"

text \<open>
  Modelled from the spec: \<open>process\<close>, which the source calls (in both versions of
  \<open>handle\<close> and in the first \<open>Serve\<close>) and never defines. The spec has the worker
  execute the task's computation and deliver exactly one value on the task's reply. With
  the types the source declares (\<open>f func([]int) int\<close>, \<open>resultChan chan int\<close>) the
  computation is \<open>r.f(r.args)\<close> and the value delivered is its \<open>int\<close>: \<open>process(r)\<close> is
  \<open>r.resultChan <- r.f(r.args)\<close>, and \<open>process r\<close> is the value it writes. This is the
  computation that returns.
\<close>

definition process :: "Request \<Rightarrow> go_int" where
  "process r = f r (args r)"

text \<open>
  Modelled from the spec: a client that abandons waiting for its answer (the spec's
  \<open>AwaitTimeout\<close>). The client of the notes has no such path: it blocks at its receive.
\<close>

definition give_up :: "cpc \<Rightarrow> cpc option" where
  "give_up c = (case c of CWait r \<Rightarrow> Some (CGone r) | _ \<Rightarrow> None)"

text \<open>
  One atomic step of one goroutine, or of the environment. \<open>Spawn\<close> is a turn of the
  loop of \<open>Serve\<close>, \<open>Quit\<close> its receive from \<open>quit\<close> (whoever sends there is not in the
  source). \<open>Make\<close> builds the request with a fresh reply channel, \<open>Submit\<close> is the
  client's send into the buffer of the queue, \<open>Handoff\<close> the same send on a queue of
  capacity zero, which completes only together with a handler's receive;
  \<open>SubmitClosed\<close> is the send on a closed queue, which panics. Nothing in the source
  closes the queue: \<open>Close\<close> is left to the environment, and is the only way for a
  \<open>range\<close> loop to end. \<open>Pull\<close> is a handler's receive from the buffer, \<open>Exit\<close> the end
  of its loop, \<open>Begin\<close> its call of \<open>process\<close>. \<open>Reply\<close> is the write of \<open>process\<close> on a
  reply channel of capacity zero, together with the client's receive; \<open>Post\<close> and
  \<open>Take\<close> are the write and the receive through the buffer of a reply channel that has
  one. \<open>Abandon\<close> is a client giving up.
\<close>

datatype pact =
    Spawn | Quit | Make nat | Submit nat | Handoff nat nat | SubmitClosed nat | Close
  | Pull nat | Exit nat | Begin nat | Reply nat nat | Post nat | Take nat | Abandon nat

fun at_range :: "wpc \<Rightarrow> bool" where
  "at_range WRange = True"
| "at_range _ = False"

definition idle :: "pool \<Rightarrow> nat \<Rightarrow> bool" where
  "idle s w = (w < length (workers s) \<and> at_range (workers s ! w))"

definition held :: "pool \<Rightarrow> nat \<Rightarrow> Request option" where
  "held s w =
     (if w < length (workers s)
      then (case workers s ! w of WProcess r \<Rightarrow> Some r | _ \<Rightarrow> None) else None)"

fun act :: "nat \<Rightarrow> pact \<Rightarrow> pool \<Rightarrow> pool option" where
  "act M Spawn s =
     (case srv s of
        Looping i \<Rightarrow> if i < M
                     then Some (s\<lparr>srv := Looping (i + 1), workers := workers s @ [WRange]\<rparr>)
                     else None
      | Quitted \<Rightarrow> None)"
| "act M Quit s =
     (case srv s of
        Looping i \<Rightarrow> if i < M then None else Some (s\<lparr>srv := Quitted\<rparr>)
      | Quitted \<Rightarrow> None)"
| "act M (Make i) s =
     (if i < length (clients s)
      then (case clients s ! i of
              CStart a g \<Rightarrow>
                Some (s\<lparr>replies := replies s @ [make_chan 0],
                        clients := (clients s)
                          [i := CSend \<lparr>args = a, f = g, resultChan = length (replies s)\<rparr>]\<rparr>)
            | _ \<Rightarrow> None)
      else None)"
| "act M (Submit i) s =
     (if i < length (clients s)
      then (case clients s ! i of
              CSend r \<Rightarrow>
                if \<not> shut (clientRequests s) \<and> has_room (clientRequests s)
                then Some (s\<lparr>clientRequests := push r (clientRequests s),
                             clients := (clients s)[i := CWait r],
                             submitted := submitted s @ [r]\<rparr>)
                else None
            | _ \<Rightarrow> None)
      else None)"
| "act M (Handoff i w) s =
     (if i < length (clients s)
      then (case clients s ! i of
              CSend r \<Rightarrow>
                if \<not> shut (clientRequests s) \<and> cap (clientRequests s) = 0
                   \<and> idle s w
                then Some (s\<lparr>clients := (clients s)[i := CWait r],
                             workers := (workers s)[w := WGot r],
                             submitted := submitted s @ [r],
                             pulled := pulled s @ [r]\<rparr>)
                else None
            | _ \<Rightarrow> None)
      else None)"
| "act M (SubmitClosed i) s =
     (if i < length (clients s)
      then (case clients s ! i of
              CSend r \<Rightarrow> if shut (clientRequests s) then Some (s\<lparr>crashed := True\<rparr>) else None
            | _ \<Rightarrow> None)
      else None)"
| "act M Close s =
     (if shut (clientRequests s) then None
      else Some (s\<lparr>clientRequests := (clientRequests s)\<lparr>shut := True\<rparr>\<rparr>))"
| "act M (Pull w) s =
     (if idle s w \<and> buf (clientRequests s) \<noteq> []
      then Some (s\<lparr>clientRequests := pop (clientRequests s),
                   workers := (workers s)[w := WGot (hd (buf (clientRequests s)))],
                   pulled := pulled s @ [hd (buf (clientRequests s))]\<rparr>)
      else None)"
| "act M (Exit w) s =
     (if idle s w \<and> buf (clientRequests s) = [] \<and> shut (clientRequests s)
      then Some (s\<lparr>workers := (workers s)[w := WExited]\<rparr>)
      else None)"
| "act M (Begin w) s =
     (if w < length (workers s)
      then (case workers s ! w of
              WGot r \<Rightarrow> Some (s\<lparr>workers := (workers s)[w := WProcess r],
                                begun := begun s @ [r]\<rparr>)
            | _ \<Rightarrow> None)
      else None)"
| "act M (Reply w i) s =
     (case held s w of
        Some r \<Rightarrow>
          if resultChan r < length (replies s)
             \<and> cap (replies s ! resultChan r) = 0
             \<and> i < length (clients s)
          then (case clients s ! i of
                  CWait r' \<Rightarrow>
                    if resultChan r' = resultChan r
                    then Some (s\<lparr>workers := (workers s)[w := WRange],
                                 clients := (clients s)[i := CDone r' (process r)],
                                 delivered := delivered s @ [(resultChan r, process r)]\<rparr>)
                    else None
                | _ \<Rightarrow> None)
          else None
      | None \<Rightarrow> None)"
| "act M (Post w) s =
     (case held s w of
        Some r \<Rightarrow>
          if resultChan r < length (replies s)
             \<and> has_room (replies s ! resultChan r)
          then Some (s\<lparr>workers := (workers s)[w := WRange],
                       replies := (replies s)
                         [resultChan r := push (process r) (replies s ! resultChan r)],
                       delivered := delivered s @ [(resultChan r, process r)]\<rparr>)
          else None
      | None \<Rightarrow> None)"
| "act M (Take i) s =
     (if i < length (clients s)
      then (case clients s ! i of
              CWait r \<Rightarrow>
                if resultChan r < length (replies s) \<and> buf (replies s ! resultChan r) \<noteq> []
                then Some (s\<lparr>clients := (clients s)
                               [i := CDone r (hd (buf (replies s ! resultChan r)))],
                             replies := (replies s)
                               [resultChan r := pop (replies s ! resultChan r)]\<rparr>)
                else None
            | _ \<Rightarrow> None)
      else None)"
| "act M (Abandon i) s =
     (if i < length (clients s)
      then (case give_up (clients s ! i) of
              Some c \<Rightarrow> Some (s\<lparr>clients := (clients s)[i := c]\<rparr>)
            | None \<Rightarrow> None)
      else None)"

text \<open>Once the program has died of a panic, nothing happens any more.\<close>

definition pstep :: "nat \<Rightarrow> pact \<Rightarrow> pool \<Rightarrow> pool option" where
  "pstep M a s = (if crashed s then None else act M a s)"

fun prun :: "nat \<Rightarrow> pact list \<Rightarrow> pool \<Rightarrow> pool option" where
  "prun M [] s = Some s"
| "prun M (a # as) s = (case pstep M a s of None \<Rightarrow> None | Some s' \<Rightarrow> prun M as s')"

text \<open>What the claims about the pool speak of, as functions of the state.\<close>

fun got :: "wpc \<Rightarrow> Request list" where
  "got (WGot r) = [r]"
| "got _ = []"

definition fetched :: "pool \<Rightarrow> Request list" where
  "fetched s = concat (map got (workers s))"

fun exited :: "wpc \<Rightarrow> bool" where
  "exited WExited = True"
| "exited _ = False"

fun holding :: "wpc \<Rightarrow> Request multiset" where
  "holding (WGot r) = {#r#}"
| "holding (WProcess r) = {#r#}"
| "holding _ = {#}"

fun waits :: "cpc \<Rightarrow> Request multiset" where
  "waits (CWait r) = {#r#}"
| "waits (CGone r) = {#r#}"
| "waits _ = {#}"

definition in_hand :: "pool \<Rightarrow> Request multiset" where
  "in_hand s = sum_list (map holding (workers s))"

definition waiting :: "pool \<Rightarrow> Request multiset" where
  "waiting s = sum_list (map waits (clients s))"

fun request_of :: "cpc \<Rightarrow> Request option" where
  "request_of (CStart a g) = None"
| "request_of (CSend r) = Some r"
| "request_of (CWait r) = Some r"
| "request_of (CDone r v) = Some r"
| "request_of (CGone r) = Some r"

definition chan_of :: "cpc \<Rightarrow> nat option" where
  "chan_of c = map_option resultChan (request_of c)"

fun job_of :: "cpc \<Rightarrow> go_int list \<times> (go_int list \<Rightarrow> go_int)" where
  "job_of (CStart a g) = (a, g)"
| "job_of (CSend r) = (args r, f r)"
| "job_of (CWait r) = (args r, f r)"
| "job_of (CDone r v) = (args r, f r)"
| "job_of (CGone r) = (args r, f r)"

fun gone :: "cpc \<Rightarrow> bool" where
  "gone (CGone r) = True"
| "gone _ = False"

fun answered :: "cpc \<Rightarrow> bool" where
  "answered (CDone r v) = True"
| "answered _ = False"

text \<open>
  \<open>Quit\<close>, \<open>Close\<close> and \<open>Abandon\<close> are decisions of the environment: a value arrives on
  \<open>quit\<close>, somebody closes the queue, a client stops waiting. Every other action is a
  step of a goroutine of the program, and each one that can be enabled in a state is
  among the candidates. A state is quiescent when no goroutine can take a step: each
  one is blocked or has finished.
\<close>

fun external :: "pact \<Rightarrow> bool" where
  "external Quit = True"
| "external Close = True"
| "external (Abandon i) = True"
| "external _ = False"

definition candidates :: "pool \<Rightarrow> pact list" where
  "candidates s =
     [Spawn]
     @ concat (map (\<lambda>i. [Make i, Submit i, SubmitClosed i, Take i]
                         @ map (Handoff i) [0..<length (workers s)])
                   [0..<length (clients s)])
     @ concat (map (\<lambda>w. [Pull w, Exit w, Begin w, Post w]
                         @ map (Reply w) [0..<length (clients s)])
                   [0..<length (workers s)])"

definition quiescent :: "nat \<Rightarrow> pool \<Rightarrow> bool" where
  "quiescent M s = list_all (\<lambda>a. Option.is_none (pstep M a s)) (candidates s)"

text \<open>A bound on the number of steps still possible.\<close>

fun srv_fuel :: "nat \<Rightarrow> srvpc \<Rightarrow> nat" where
  "srv_fuel M (Looping i) = 2 * (M - i) + 1"
| "srv_fuel M Quitted = 0"

fun worker_fuel :: "wpc \<Rightarrow> nat" where
  "worker_fuel WRange = 1"
| "worker_fuel (WGot r) = 4"
| "worker_fuel (WProcess r) = 3"
| "worker_fuel WExited = 0"

fun client_fuel :: "cpc \<Rightarrow> nat" where
  "client_fuel (CStart a g) = 8"
| "client_fuel (CSend r) = 7"
| "client_fuel (CWait r) = 2"
| "client_fuel (CDone r v) = 0"
| "client_fuel (CGone r) = 0"

definition fuel :: "nat \<Rightarrow> pool \<Rightarrow> nat" where
  "fuel M s =
     srv_fuel M (srv s)
     + sum_list (map worker_fuel (workers s))
     + sum_list (map client_fuel (clients s))
     + 4 * length (buf (clientRequests s))
     + sum_list (map (\<lambda>c. length (buf c)) (replies s))
     + (if shut (clientRequests s) then 0 else 1)
     + (if crashed s then 0 else 1)"

definition job345 :: "go_int list \<times> (go_int list \<Rightarrow> go_int)" where
  "job345 = ([3, 4, 5], sum_ints)"

section \<open>Invariants of the pool\<close>

text \<open>
  Every reply channel is as \<open>make(chan int)\<close> made it: of capacity zero, and so
  with nothing in its buffer.
\<close>

definition replies_inv :: "pool \<Rightarrow> bool" where
  "replies_inv s = list_all (\<lambda>c. cap c = 0 \<and> buf c = []) (replies s)"

text \<open>\<open>Serve\<close> has started as many handlers as its loop has made turns, at most \<open>MaxOutstanding\<close>.\<close>

definition staff_inv :: "nat \<Rightarrow> pool \<Rightarrow> bool" where
  "staff_inv M s =
     (case srv s of
        Looping i \<Rightarrow> length (workers s) = i \<and> i \<le> M
      | Quitted \<Rightarrow> length (workers s) = M)"

text \<open>The requests sent are those received, followed by those still in the queue.\<close>

definition fifo_inv :: "pool \<Rightarrow> bool" where
  "fifo_inv s =
     (length (buf (clientRequests s)) \<le> cap (clientRequests s)
      \<and> submitted s = pulled s @ buf (clientRequests s))"

text \<open>A single handler calls \<open>process\<close> in the order in which it receives.\<close>

definition order_inv :: "pool \<Rightarrow> bool" where
  "order_inv s = (length (workers s) \<le> 1 \<longrightarrow> pulled s = begun s @ fetched s)"

text \<open>
  With any number of handlers: each request received was passed to \<open>process\<close>, or is
  held by a handler that is about to call it.
\<close>

definition begun_inv :: "pool \<Rightarrow> bool" where
  "begun_inv s = (mset (pulled s) = mset (begun s) + mset (fetched s))"

text \<open>A handler has left its loop only if the queue is closed and empty.\<close>

definition exit_inv :: "pool \<Rightarrow> bool" where
  "exit_inv s =
     (list_ex exited (workers s) \<longrightarrow> shut (clientRequests s) \<and> buf (clientRequests s) = [])"

text \<open>
  The requests whose clients wait (or have given up) are those in the queue and those
  in the hands of handlers.
\<close>

definition account_inv :: "pool \<Rightarrow> bool" where
  "account_inv s = (waiting s = mset (buf (clientRequests s)) + in_hand s)"

text \<open>Each reply channel is in the store and belongs to one client only.\<close>

definition chan_inv :: "pool \<Rightarrow> bool" where
  "chan_inv s =
     (\<forall>i<length (clients s). \<forall>ch. chan_of (clients s ! i) = Some ch \<longrightarrow>
        ch < length (replies s)
        \<and> (\<forall>j<length (clients s). chan_of (clients s ! j) = Some ch \<longrightarrow> j = i))"

text \<open>
  No reply channel was written twice; a value was written on a channel exactly when
  its client has its answer, and the answer is the result of the client's own request.
\<close>

definition delivered_inv :: "pool \<Rightarrow> bool" where
  "delivered_inv s =
     (distinct (map fst (delivered s))
      \<and> (\<forall>ch v. (ch, v) \<in> set (delivered s) \<longrightarrow>
            (\<exists>i<length (clients s). \<exists>r. clients s ! i = CDone r v \<and> resultChan r = ch))
      \<and> (\<forall>i<length (clients s). \<forall>r v. clients s ! i = CDone r v \<longrightarrow>
            (resultChan r, v) \<in> set (delivered s) \<and> f r (args r) = v))"

text \<open>The same, on the list of the clients' channels.\<close>

definition chans_ok :: "nat \<Rightarrow> nat option list \<Rightarrow> bool" where
  "chans_ok n cs =
     (\<forall>i<length cs. \<forall>ch. cs ! i = Some ch \<longrightarrow>
        ch < n \<and> (\<forall>j<length cs. cs ! j = Some ch \<longrightarrow> j = i))"

text \<open>All invariants of the pool together.\<close>

definition pool_inv :: "nat \<Rightarrow> pool \<Rightarrow> bool" where
  "pool_inv M s =
     (replies_inv s \<and> staff_inv M s \<and> fifo_inv s \<and> order_inv s \<and> begun_inv s
      \<and> exit_inv s \<and> account_inv s \<and> chan_inv s \<and> delivered_inv s)"

section \<open>Concrete runs of the pool\<close>

text \<open>
  One handler, a queue of capacity 1, two clients: both requests are answered, then
  \<open>quit\<close> arrives, the queue is closed and the handler leaves its loop.
\<close>

definition serve_all :: "pact list" where
  "serve_all = [Spawn, Make 0, Make 1, Submit 0, Pull 0, Submit 1, Begin 0, Reply 0 0,
                Pull 0, Begin 0, Reply 0 1, Quit, Close, Exit 0]"

definition all_served :: pool where
  "all_served =
     \<lparr>clientRequests = \<lparr>buf = [], cap = 1, shut = True\<rparr>,
      replies = [make_chan 0, make_chan 0], srv = Quitted, workers = [WExited],
      clients = [CDone (request345 0) 12, CDone (request345 1) 12], crashed = False,
      submitted = [request345 0, request345 1], pulled = [request345 0, request345 1],
      begun = [request345 0, request345 1], delivered = [(0, 12), (1, 12)]\<rparr>"

text \<open>A handler inside \<open>process\<close> while the client waits for the answer.\<close>

definition in_flight :: pool where
  "in_flight =
     \<lparr>clientRequests = \<lparr>buf = [], cap = 1, shut = False\<rparr>,
      replies = [make_chan 0], srv = Looping 1, workers = [WProcess (request345 0)],
      clients = [CWait (request345 0)], crashed = False,
      submitted = [request345 0], pulled = [request345 0],
      begun = [request345 0], delivered = []\<rparr>"

text \<open>\<open>Serve\<close> has returned; the client holds its request and has not sent it yet.\<close>

definition after_quit :: pool where
  "after_quit =
     \<lparr>clientRequests = \<lparr>buf = [], cap = 1, shut = False\<rparr>,
      replies = [make_chan 0], srv = Quitted, workers = [WRange],
      clients = [CSend (request345 0)], crashed = False,
      submitted = [], pulled = [], begun = [], delivered = []\<rparr>"

text \<open>\<open>Serve\<close> has returned with one request in the queue and one inside \<open>process\<close>.\<close>

definition undrained :: pool where
  "undrained =
     \<lparr>clientRequests = \<lparr>buf = [request345 1], cap = 2, shut = False\<rparr>,
      replies = [make_chan 0, make_chan 0], srv = Quitted,
      workers = [WProcess (request345 0)],
      clients = [CWait (request345 0), CWait (request345 1)], crashed = False,
      submitted = [request345 0, request345 1], pulled = [request345 0],
      begun = [request345 0], delivered = []\<rparr>"

text \<open>The queue was closed at once: the handler has left its loop, \<open>Serve\<close> waits at \<open>quit\<close>.\<close>

definition early_exit :: pool where
  "early_exit =
     \<lparr>clientRequests = \<lparr>buf = [], cap = 2, shut = True\<rparr>,
      replies = [], srv = Looping 1, workers = [WExited], clients = [], crashed = False,
      submitted = [], pulled = [], begun = [], delivered = []\<rparr>"

text \<open>
  The first client gave up waiting while its request was inside \<open>process\<close>; the second
  request is in the queue.
\<close>

definition stuck :: pool where
  "stuck =
     \<lparr>clientRequests = \<lparr>buf = [request345 1], cap = 2, shut = True\<rparr>,
      replies = [make_chan 0, make_chan 0], srv = Quitted,
      workers = [WProcess (request345 0)],
      clients = [CGone (request345 0), CWait (request345 1)], crashed = False,
      submitted = [request345 0, request345 1], pulled = [request345 0],
      begun = [request345 0], delivered = []\<rparr>"

text \<open>
  The first request is in the queue; the queue was closed, and the second client's send
  on the closed queue panicked.
\<close>

definition killed :: pool where
  "killed =
     \<lparr>clientRequests = \<lparr>buf = [request345 0], cap = 2, shut = True\<rparr>,
      replies = [make_chan 0, make_chan 0], srv = Looping 1, workers = [WRange],
      clients = [CWait (request345 0), CSend (request345 1)], crashed = True,
      submitted = [request345 0], pulled = [], begun = [], delivered = []\<rparr>"

text \<open>\<open>MaxOutstanding = 0\<close>: no handler was started; the request sits in the queue.\<close>

definition unserved :: pool where
  "unserved =
     \<lparr>clientRequests = \<lparr>buf = [request345 0], cap = 1, shut = True\<rparr>,
      replies = [make_chan 0], srv = Quitted, workers = [],
      clients = [CWait (request345 0)], crashed = False,
      submitted = [request345 0], pulled = [], begun = [], delivered = []\<rparr>"

section \<open>A computation that raises an error\<close>











section \<open>Properties of the executable program\<close>

text \<open>
  C9: run from any world, the program appends the twelve characters \<open>Effective Go\<close> and a
  newline to standard output, and changes nothing else: arguments, environment, standard
  input and standard error are as before, and what was already on standard output stays.
\<close>

theorem main_prints_effective_go:
  "main w = w\<lparr>stdout := stdout w @ ''Effective Go'' @ [CHR 0x0A]\<rparr>
   \<and> printed w = ''Effective Go'' @ [CHR 0x0A]
   \<and> argv (main w) = argv w \<and> environ (main w) = environ w
   \<and> stdin (main w) = stdin w \<and> stderr (main w) = stderr w"
  by (simp add: main_def Println_def printed_def)

text \<open>
  C10: the output of a run does not depend on the arguments, the environment or the
  standard input: replacing all three leaves the printed text the same, any two worlds
  give the same printed text, and the run consumes no input. \<open>main\<close> is a total,
  non-recursive function, so every run ends.
\<close>

theorem main_independent_of_input:
  "printed (w\<lparr>argv := a, environ := e, stdin := i\<rparr>) = printed w
   \<and> printed w = printed w'
   \<and> stdin (main (w\<lparr>stdin := i\<rparr>)) = i"
  by (simp add: main_def Println_def printed_def)

section \<open>The semaphore bounds the running task bodies\<close>

lemma filter_update_count:
  "i < length xs \<Longrightarrow>
   length (filter P (xs[i := y])) + (if P (xs ! i) then 1 else 0)
     = length (filter P xs) + (if P y then 1 else 0)"
proof (induction xs arbitrary: i)
  case Nil
  then show ?case by simp
next
  case (Cons x xs)
  then show ?case by (cases i) auto
qed

lemma filter_count_mono:
  "(\<And>x. P x \<Longrightarrow> Q x) \<Longrightarrow> length (filter P xs) \<le> length (filter Q xs)"
  by (induction xs) auto

lemma ranging_iff [simp]: "ranging p = (p = SRange)"
  by (cases p) simp_all

lemma move_simps [simp]:
  "sem (move i p evs s) = sem s" "queue (move i p evs s) = queue s"
  "serve (move i p evs s) = serve s" "length (thr (move i p evs s)) = length (thr s)"
  by (simp_all add: move_def)

lemma holders_move:
  "i < length (thr s) \<Longrightarrow>
   holders (move i p evs s) + (if holds (pc (thr s ! i)) then 1 else 0)
     = holders s + (if holds p then 1 else 0)"
  using filter_update_count [of i "thr s" "\<lambda>g. holds (pc g)"
      "(thr s ! i)\<lparr>pc := p, log := log (thr s ! i) @ evs\<rparr>"]
  by (simp add: holders_def move_def)

lemma holders_pos:
  assumes "at s j p" and "holds p"
  shows "0 < holders s"
proof -
  from assms have "thr s ! j \<in> set (filter (\<lambda>g. holds (pc g)) (thr s))"
    by (simp add: at_def)
  then have "filter (\<lambda>g. holds (pc g)) (thr s) \<noteq> []"
    by (metis empty_iff empty_set)
  then show ?thesis by (simp add: holders_def)
qed

lemma gate_inv_init: "gate_inv M (ginit M q)"
  by (simp add: gate_inv_def ginit_def make_chan_def inUse_def holders_def)

text \<open>Every step keeps the invariant: the sends (acquire) and the receives (release) too.\<close>

lemma gate_inv_step:
  assumes "gate_inv M s" "gstep a s = Some s'"
  shows "gate_inv M s'"
proof (cases a)
  case (Call r)
  with assms show ?thesis by (auto simp: gate_inv_def inUse_def holders_def)
next
  case (Acq i)
  with assms holders_move [of i "s\<lparr>sem := push 1 (sem s)\<rparr>" InProcess "[Acquire, Enter]"]
  show ?thesis
    by (auto simp: gate_inv_def inUse_def at_def has_room_def push_def holders_def
        split: if_splits)
next
  case (AcqSync i j)
  with assms have c: "cap (sem s) = 0" and j: "at s j AtRelease"
    by (auto split: if_splits)
  from holders_pos [OF j] assms(1) c have False
    by (simp add: gate_inv_def)
  then show ?thesis ..
next
  case (Ret i)
  with assms holders_move [of i s AtRelease "[Leave]"]
  show ?thesis by (auto simp: gate_inv_def inUse_def at_def split: if_splits)
next
  case (Pan i)
  with assms holders_move [of i s Panicked "[]"]
  show ?thesis by (auto simp: gate_inv_def inUse_def at_def split: if_splits)
next
  case (Rel i)
  with assms holders_move [of i "s\<lparr>sem := pop (sem s)\<rparr>" Returned "[Release]"]
  show ?thesis
    by (auto simp: gate_inv_def inUse_def at_def pop_def holders_def split: if_splits)
next
  case (Enq r)
  with assms show ?thesis by (auto simp: gate_inv_def inUse_def holders_def split: if_splits)
next
  case (EnqSync r)
  with assms show ?thesis by (auto simp: gate_inv_def inUse_def holders_def split: if_splits)
next
  case CloseQ
  with assms show ?thesis by (auto simp: gate_inv_def inUse_def holders_def split: if_splits)
next
  case Deq
  with assms show ?thesis by (auto simp: gate_inv_def inUse_def holders_def split: if_splits)
next
  case Stop
  with assms show ?thesis by (auto simp: gate_inv_def inUse_def holders_def split: if_splits)
next
  case SAcq
  with assms show ?thesis
    by (auto simp: gate_inv_def inUse_def holders_def has_room_def push_def
        split: if_splits spc.splits)
next
  case (SAcqSync j)
  with assms have c: "cap (sem s) = 0" and j: "at s j AtRelease"
    by (auto split: if_splits spc.splits)
  from holders_pos [OF j] assms(1) c have False
    by (simp add: gate_inv_def)
  then show ?thesis ..
next
  case Go
  with assms show ?thesis
    by (auto simp: gate_inv_def inUse_def holders_def split: if_splits spc.splits)
qed

lemma gate_inv_run: "gate_inv M s \<Longrightarrow> grun as s = Some s' \<Longrightarrow> gate_inv M s'"
proof (induction as arbitrary: s)
  case Nil
  then show ?case by simp
next
  case (Cons a as)
  then show ?case by (auto split: option.splits dest: gate_inv_step)
qed

lemma running_le_holders: "running s \<le> holders s"
proof -
  have "length (filter (\<lambda>g. pc g = InProcess) (thr s))
        \<le> length (filter (\<lambda>g. holds (pc g)) (thr s))"
    by (rule filter_count_mono) simp
  then show ?thesis by (simp add: running_def holders_def)
qed

lemmas gate_evals =
  ginit_def make_chan_def at_def move_def has_room_def push_def pop_def request345_def

text \<open>
  C1: in every state that the goroutines of \<open>handle\<close> and of \<open>Serve\<close> can reach from
  the start, under any interleaving, the number of values in \<open>sem\<close> is at most
  \<open>MaxOutstanding\<close>, and the number of goroutines inside \<open>process\<close> is at most the
  number of values in \<open>sem\<close>, hence at most \<open>MaxOutstanding\<close>. (The counter is a length,
  so it is never negative; \<open>gate_inv_step\<close> is the preservation by each single step.)
\<close>

theorem gate_bounds_concurrency:
  assumes "grun as (ginit MaxOutstanding qcap) = Some s"
  shows "inUse s \<le> MaxOutstanding \<and> running s \<le> inUse s \<and> running s \<le> MaxOutstanding"
proof -
  have "gate_inv MaxOutstanding s"
    using gate_inv_run [OF gate_inv_init assms] .
  with running_le_holders [of s] show ?thesis by (simp add: gate_inv_def)
qed

theorem gate_bounds_concurrency_witness:
  "grun [Call (request345 0), Call (request345 1), Call (request345 2),
         Acq 0, Acq 2, Ret 2, Rel 2, Acq 1] (ginit 2 0) = Some gate_demo
   \<and> inUse gate_demo \<le> 2 \<and> running gate_demo \<le> inUse gate_demo \<and> running gate_demo \<le> 2"
proof -
  have h: "grun [Call (request345 0), Call (request345 1), Call (request345 2),
                 Acq 0, Acq 2, Ret 2, Rel 2, Acq 1] (ginit 2 0) = Some gate_demo"
    by (simp add: gate_evals gate_demo_def)
  show ?thesis using h gate_bounds_concurrency [OF h] by simp
qed

section \<open>Acquire and release in \<open>handle\<close>\<close>




lemma log_inv_sem [simp]: "log_inv (s\<lparr>sem := c\<rparr>) = log_inv s"
  and log_inv_serve [simp]: "log_inv (s\<lparr>serve := p\<rparr>) = log_inv s"
  and log_inv_queue [simp]: "log_inv (s\<lparr>queue := q\<rparr>) = log_inv s"
  by (simp_all add: log_inv_def)

lemma at_simps [simp]:
  "at (s\<lparr>sem := c\<rparr>) i p = at s i p" "at (s\<lparr>serve := sp\<rparr>) i p = at s i p"
  by (simp_all add: at_def)







section \<open>The worker pool: steps and simple invariants\<close>

lemmas pool_evals = pinit_def pstep_def make_chan_def has_room_def push_def pop_def
  idle_def held_def process_def give_up_def job345_def request345_def sum_ints_def

lemma at_range_iff [simp]: "at_range p = (p = WRange)"
  by (cases p) simp_all

lemma held_Some: "held s w = Some r \<longleftrightarrow> w < length (workers s) \<and> workers s ! w = WProcess r"
  by (auto simp: held_def split: wpc.splits)

text \<open>What a step tells: one case for each action, with its guard and its effect.\<close>

lemma pstep_cases [consumes 1, case_names Spawn Quit Make Submit Handoff SubmitClosed Close
    Pull Exit Begin Reply Post Take Abandon]:
  assumes "pstep M a s = Some s'"
  obtains
    (Spawn) i where "a = Spawn" "srv s = Looping i" "i < M"
      "s' = s\<lparr>srv := Looping (i + 1), workers := workers s @ [WRange]\<rparr>"
  | (Quit) i where "a = Quit" "srv s = Looping i" "\<not> i < M" "s' = s\<lparr>srv := Quitted\<rparr>"
  | (Make) i b g where "a = Make i" "i < length (clients s)" "clients s ! i = CStart b g"
      "s' = s\<lparr>replies := replies s @ [make_chan 0],
              clients := (clients s)
                [i := CSend \<lparr>args = b, f = g, resultChan = length (replies s)\<rparr>]\<rparr>"
  | (Submit) i r where "a = Submit i" "i < length (clients s)" "clients s ! i = CSend r"
      "\<not> shut (clientRequests s)" "has_room (clientRequests s)"
      "s' = s\<lparr>clientRequests := push r (clientRequests s),
              clients := (clients s)[i := CWait r],
              submitted := submitted s @ [r]\<rparr>"
  | (Handoff) i w r where "a = Handoff i w" "i < length (clients s)" "clients s ! i = CSend r"
      "\<not> shut (clientRequests s)" "cap (clientRequests s) = 0"
      "w < length (workers s)" "workers s ! w = WRange"
      "s' = s\<lparr>clients := (clients s)[i := CWait r],
              workers := (workers s)[w := WGot r],
              submitted := submitted s @ [r],
              pulled := pulled s @ [r]\<rparr>"
  | (SubmitClosed) i r where "a = SubmitClosed i" "i < length (clients s)"
      "clients s ! i = CSend r" "shut (clientRequests s)" "s' = s\<lparr>crashed := True\<rparr>"
  | (Close) "a = Close" "\<not> shut (clientRequests s)"
      "s' = s\<lparr>clientRequests := (clientRequests s)\<lparr>shut := True\<rparr>\<rparr>"
  | (Pull) w where "a = Pull w" "w < length (workers s)" "workers s ! w = WRange"
      "buf (clientRequests s) \<noteq> []"
      "s' = s\<lparr>clientRequests := pop (clientRequests s),
              workers := (workers s)[w := WGot (hd (buf (clientRequests s)))],
              pulled := pulled s @ [hd (buf (clientRequests s))]\<rparr>"
  | (Exit) w where "a = Exit w" "w < length (workers s)" "workers s ! w = WRange"
      "buf (clientRequests s) = []" "shut (clientRequests s)"
      "s' = s\<lparr>workers := (workers s)[w := WExited]\<rparr>"
  | (Begin) w r where "a = Begin w" "w < length (workers s)" "workers s ! w = WGot r"
      "s' = s\<lparr>workers := (workers s)[w := WProcess r], begun := begun s @ [r]\<rparr>"
  | (Reply) w i r v r' where "a = Reply w i" "w < length (workers s)"
      "workers s ! w = WProcess r" "f r (args r) = v"
      "resultChan r < length (replies s)" "cap (replies s ! resultChan r) = 0"
      "i < length (clients s)" "clients s ! i = CWait r'" "resultChan r' = resultChan r"
      "s' = s\<lparr>workers := (workers s)[w := WRange],
              clients := (clients s)[i := CDone r' v],
              delivered := delivered s @ [(resultChan r, v)]\<rparr>"
  | (Post) w r v where "a = Post w" "w < length (workers s)"
      "workers s ! w = WProcess r" "f r (args r) = v"
      "resultChan r < length (replies s)" "has_room (replies s ! resultChan r)"
      "s' = s\<lparr>workers := (workers s)[w := WRange],
              replies := (replies s)[resultChan r := push v (replies s ! resultChan r)],
              delivered := delivered s @ [(resultChan r, v)]\<rparr>"
  | (Take) i r where "a = Take i" "i < length (clients s)" "clients s ! i = CWait r"
      "resultChan r < length (replies s)" "buf (replies s ! resultChan r) \<noteq> []"
      "s' = s\<lparr>clients := (clients s)[i := CDone r (hd (buf (replies s ! resultChan r)))],
              replies := (replies s)[resultChan r := pop (replies s ! resultChan r)]\<rparr>"
  | (Abandon) i r where "a = Abandon i" "i < length (clients s)" "clients s ! i = CWait r"
      "s' = s\<lparr>clients := (clients s)[i := CGone r]\<rparr>"
proof -
  from assms have nc: "\<not> crashed s" and st: "act M a s = Some s'"
    by (auto simp: pstep_def split: if_splits)
  note [simp] = process_def give_up_def
  show thesis
  proof (cases a)
    case Spawn
    with st show ?thesis by (auto split: srvpc.splits if_splits intro: that(1))
  next
    case Quit
    with st show ?thesis by (auto split: srvpc.splits if_splits intro: that(2))
  next
    case (Make i)
    with st show ?thesis by (auto split: cpc.splits if_splits intro: that(3))
  next
    case (Submit i)
    with st show ?thesis by (auto split: cpc.splits if_splits intro: that(4))
  next
    case (Handoff i w)
    with st show ?thesis by (auto simp: idle_def split: cpc.splits if_splits intro: that(5))
  next
    case (SubmitClosed i)
    with st show ?thesis by (auto split: cpc.splits if_splits intro: that(6))
  next
    case Close
    with st show ?thesis by (auto split: if_splits intro: that(7))
  next
    case (Pull w)
    with st show ?thesis by (auto simp: idle_def split: if_splits intro: that(8))
  next
    case (Exit w)
    with st show ?thesis by (auto simp: idle_def split: if_splits intro: that(9))
  next
    case (Begin w)
    with st show ?thesis by (auto split: wpc.splits if_splits intro: that(10))
  next
    case (Reply w i)
    with st show ?thesis
      by (auto simp: held_Some split: option.splits cpc.splits if_splits intro: that(11))
  next
    case (Post w)
    with st show ?thesis
      by (auto simp: held_Some split: option.splits if_splits intro: that(12))
  next
    case (Take i)
    with st show ?thesis by (auto split: cpc.splits if_splits intro: that(13))
  next
    case (Abandon i)
    with st show ?thesis by (auto split: option.splits cpc.splits if_splits intro: that(14))
  qed
qed

lemma pstep_alive: "pstep M a s = Some s' \<Longrightarrow> \<not> crashed s"
  by (auto simp: pstep_def split: if_splits)

lemma replies_invD:
  "replies_inv s \<Longrightarrow> ch < length (replies s) \<Longrightarrow>
   cap (replies s ! ch) = 0 \<and> buf (replies s ! ch) = []"
  by (simp add: replies_inv_def list_all_length)

lemma replies_inv_step:
  assumes "pstep M a s = Some s'" "replies_inv s"
  shows "replies_inv s'"
  using assms
proof (cases rule: pstep_cases)
  case (Post w r v)
  with replies_invD [OF assms(2), of "resultChan r"] show ?thesis
    by (simp add: has_room_def)
next
  case (Take i r)
  with replies_invD [OF assms(2), of "resultChan r"] show ?thesis
    by simp
qed (use assms(2) in \<open>auto simp: replies_inv_def make_chan_def\<close>)

lemma staff_inv_step:
  assumes "pstep M a s = Some s'" "staff_inv M s"
  shows "staff_inv M s'"
  using assms
  by (cases rule: pstep_cases) (auto simp: staff_inv_def split: srvpc.splits)

lemma fifo_inv_step:
  assumes "pstep M a s = Some s'" "fifo_inv s"
  shows "fifo_inv s'"
  using assms
  by (cases rule: pstep_cases)
     (auto simp: fifo_inv_def has_room_def push_def pop_def)

lemma one_worker: "length ws \<le> 1 \<Longrightarrow> w < length ws \<Longrightarrow> ws = [ws ! w] \<and> w = 0"
  by (cases ws) auto

lemma order_inv_step:
  assumes "pstep M a s = Some s'" "order_inv s"
  shows "order_inv s'"
  using assms
proof (cases rule: pstep_cases)
  case (Spawn i)
  with assms(2) show ?thesis by (auto simp: order_inv_def fetched_def)
next
  case (Handoff i w r)
  with assms(2) one_worker [of "workers s" w] show ?thesis
    by (auto simp: order_inv_def fetched_def)
next
  case (Pull w)
  with assms(2) one_worker [of "workers s" w] show ?thesis
    by (auto simp: order_inv_def fetched_def)
next
  case (Exit w)
  with assms(2) one_worker [of "workers s" w] show ?thesis
    by (auto simp: order_inv_def fetched_def)
next
  case (Begin w r)
  with assms(2) one_worker [of "workers s" w] show ?thesis
    by (auto simp: order_inv_def fetched_def)
next
  case (Reply w i r v r')
  with assms(2) one_worker [of "workers s" w] show ?thesis
    by (auto simp: order_inv_def fetched_def)
next
  case (Post w r v)
  with assms(2) one_worker [of "workers s" w] show ?thesis
    by (auto simp: order_inv_def fetched_def)
qed (use assms(2) in \<open>auto simp: order_inv_def fetched_def\<close>)

lemma mset_fetched: "mset (fetched s) = sum_list (map (\<lambda>p. mset (got p)) (workers s))"
proof -
  have "mset (concat (map got ws)) = sum_list (map (\<lambda>p. mset (got p)) ws)" for ws
    by (induction ws) simp_all
  then show ?thesis by (simp add: fetched_def)
qed

lemma fetched_update:
  assumes "w < length (workers s)"
  shows "sum_list (map (\<lambda>p. mset (got p)) ((workers s)[w := p])) + mset (got (workers s ! w))
         = mset (fetched s) + mset (got p)"
proof -
  have "w < length ws \<Longrightarrow>
        sum_list (map (\<lambda>p. mset (got p)) (ws[w := p])) + mset (got (ws ! w))
          = sum_list (map (\<lambda>p. mset (got p)) ws) + mset (got p)" for ws
  proof (induction ws arbitrary: w)
    case Nil
    then show ?case by simp
  next
    case (Cons x xs)
    then show ?case by (cases w) (simp_all add: add.assoc add.left_commute)
  qed
  with assms show ?thesis by (simp add: mset_fetched)
qed

lemma begun_inv_step:
  assumes "pstep M a s = Some s'" "begun_inv s"
  shows "begun_inv s'"
  using assms(1)
proof (cases rule: pstep_cases)
  case (Spawn i)
  with assms(2) show ?thesis by (simp add: begun_inv_def mset_fetched)
next
  case (Handoff i w r)
  with assms(2) fetched_update [of w s "WGot r"] show ?thesis
    by (simp add: begun_inv_def mset_fetched)
next
  case (Pull w)
  with assms(2) fetched_update [of w s "WGot (hd (buf (clientRequests s)))"] show ?thesis
    by (simp add: begun_inv_def mset_fetched)
next
  case (Exit w)
  with assms(2) fetched_update [of w s WExited] show ?thesis
    by (simp add: begun_inv_def mset_fetched)
next
  case (Begin w r)
  with fetched_update [of w s "WProcess r"]
  have "mset (fetched s') + {#r#} = mset (fetched s)"
    by (simp add: mset_fetched)
  with assms(2) Begin show ?thesis
    by (simp add: begun_inv_def)
next
  case (Reply w i r v r')
  with assms(2) fetched_update [of w s WRange] show ?thesis
    by (simp add: begun_inv_def mset_fetched)
next
  case (Post w r v)
  with assms(2) fetched_update [of w s WRange] show ?thesis
    by (simp add: begun_inv_def mset_fetched)
qed (use assms(2) in \<open>simp_all add: begun_inv_def fetched_def\<close>)

lemma list_ex_update:
  "list_ex P (xs[i := y]) \<Longrightarrow> list_ex P xs \<or> P y"
  by (induction xs arbitrary: i) (auto split: nat.splits)

lemma exit_inv_step:
  assumes "pstep M a s = Some s'" "exit_inv s"
  shows "exit_inv s'"
  using assms
  by (cases rule: pstep_cases)
     (auto simp: exit_inv_def push_def pop_def dest!: list_ex_update)

lemma jobs_step:
  assumes "pstep M a s = Some s'"
  shows "map job_of (clients s') = map job_of (clients s)"
  using assms
  by (cases rule: pstep_cases) (auto simp: map_update list_update_same_conv)

section \<open>No request is lost, no reply channel is written twice\<close>

lemma sum_list_map_update:
  fixes g :: "'a \<Rightarrow> 'b::comm_monoid_add"
  shows "i < length xs \<Longrightarrow>
         sum_list (map g (xs[i := y])) + g (xs ! i) = sum_list (map g xs) + g y"
proof (induction xs arbitrary: i)
  case Nil
  then show ?case by simp
next
  case (Cons x xs)
  show ?case
  proof (cases i)
    case 0
    then show ?thesis by (simp add: ac_simps)
  next
    case (Suc k)
    with Cons.prems have "k < length xs" by simp
    from Cons.IH [OF this] Suc show ?thesis
      by (simp add: add.assoc)
  qed
qed

lemma in_sum_list_mset:
  "x \<in># sum_list (map g xs) \<longleftrightarrow> (\<exists>i<length xs. x \<in># g (xs ! i))"
proof (induction xs)
  case Nil
  then show ?case by simp
next
  case (Cons y ys)
  show ?case
  proof
    assume "x \<in># sum_list (map g (y # ys))"
    then consider "x \<in># g y" | "x \<in># sum_list (map g ys)" by auto
    then show "\<exists>i<length (y # ys). x \<in># g ((y # ys) ! i)"
    proof cases
      case 1
      then have "x \<in># g ((y # ys) ! 0)" by simp
      then show ?thesis by blast
    next
      case 2
      with Cons.IH obtain i where "i < length ys" "x \<in># g (ys ! i)" by blast
      then have "Suc i < length (y # ys)" "x \<in># g ((y # ys) ! Suc i)" by simp_all
      then show ?thesis by blast
    qed
  next
    assume "\<exists>i<length (y # ys). x \<in># g ((y # ys) ! i)"
    then obtain i where i: "i < length (y # ys)" "x \<in># g ((y # ys) ! i)" by blast
    show "x \<in># sum_list (map g (y # ys))"
    proof (cases i)
      case 0
      with i show ?thesis by simp
    next
      case (Suc k)
      with i have "k < length ys" "x \<in># g (ys ! k)" by simp_all
      with Cons.IH show ?thesis by auto
    qed
  qed
qed

lemma waits_iff: "x \<in># waits c \<longleftrightarrow> c = CWait x \<or> c = CGone x"
  by (cases c) auto

lemma holding_iff: "x \<in># holding p \<longleftrightarrow> p = WGot x \<or> p = WProcess x"
  by (cases p) auto

text \<open>A request in a handler's hands belongs to a client that waits or has given up.\<close>

lemma in_hand_owner:
  assumes "account_inv s" "w < length (workers s)"
    and "workers s ! w = WGot r \<or> workers s ! w = WProcess r"
  shows "\<exists>j<length (clients s). clients s ! j = CWait r \<or> clients s ! j = CGone r"
proof -
  from assms(2,3) have "r \<in># in_hand s"
    unfolding in_hand_def in_sum_list_mset holding_iff by blast
  with assms(1) have "r \<in># waiting s" by (simp add: account_inv_def)
  then show ?thesis
    unfolding waiting_def in_sum_list_mset waits_iff .
qed

lemma queued_owner:
  assumes "account_inv s" "r \<in> set (buf (clientRequests s))"
  shows "\<exists>j<length (clients s). clients s ! j = CWait r \<or> clients s ! j = CGone r"
proof -
  from assms have "r \<in># waiting s" by (simp add: account_inv_def)
  then show ?thesis
    unfolding waiting_def in_sum_list_mset waits_iff .
qed

lemma reply_same_request:
  assumes "account_inv s" "chan_inv s" "w < length (workers s)" "workers s ! w = WProcess r"
    and "i < length (clients s)" "clients s ! i = CWait r'" "resultChan r' = resultChan r"
  shows "r' = r"
proof -
  from in_hand_owner [OF assms(1,3)] assms(4)
  obtain j where j: "j < length (clients s)" "clients s ! j = CWait r \<or> clients s ! j = CGone r"
    by blast
  then have cj: "chan_of (clients s ! j) = Some (resultChan r)"
    by (auto simp: chan_of_def)
  from assms(6,7) have ci: "chan_of (clients s ! i) = Some (resultChan r)"
    by (simp add: chan_of_def)
  from assms(2) assms(5) ci j(1) cj have "j = i"
    unfolding chan_inv_def by blast
  with j(2) assms(6) show ?thesis by auto
qed

lemma account_inv_step:
  assumes "pstep M a s = Some s'" "replies_inv s" "chan_inv s" "account_inv s"
  shows "account_inv s'"
  using assms(1)
proof (cases rule: pstep_cases)
  case (Make i b g)
  with assms(4) sum_list_map_update [of i "clients s" waits]
  show ?thesis by (auto simp: account_inv_def waiting_def in_hand_def)
next
  case (Submit i r)
  with assms(4) sum_list_map_update [of i "clients s" waits "CWait r"]
  show ?thesis by (auto simp: account_inv_def waiting_def in_hand_def push_def)
next
  case (Handoff i w r)
  with assms(4) sum_list_map_update [of i "clients s" waits "CWait r"]
    sum_list_map_update [of w "workers s" holding "WGot r"]
  show ?thesis by (auto simp: account_inv_def waiting_def in_hand_def)
next
  case (Pull w)
  then obtain x xs where b: "buf (clientRequests s) = x # xs"
    by (cases "buf (clientRequests s)") auto
  with Pull assms(4) sum_list_map_update [of w "workers s" holding "WGot x"]
  show ?thesis by (auto simp: account_inv_def waiting_def in_hand_def pop_def)
next
  case (Exit w)
  with assms(4) sum_list_map_update [of w "workers s" holding WExited]
  show ?thesis by (auto simp: account_inv_def waiting_def in_hand_def)
next
  case (Begin w r)
  with assms(4) sum_list_map_update [of w "workers s" holding "WProcess r"]
  show ?thesis by (auto simp: account_inv_def waiting_def in_hand_def)
next
  case (Reply w i r v r')
  from reply_same_request [OF assms(4,3) Reply(2,3,7,8,9)] have eq: "r' = r" .
  from Reply sum_list_map_update [of i "clients s" waits "CDone r' v"]
    sum_list_map_update [of w "workers s" holding WRange]
  have wt: "waiting s' + {#r'#} = waiting s" and ih: "in_hand s' + {#r#} = in_hand s"
    by (auto simp: waiting_def in_hand_def)
  from Reply(10) have q: "clientRequests s' = clientRequests s" by simp
  from assms(4) have "waiting s = mset (buf (clientRequests s)) + in_hand s"
    by (simp add: account_inv_def)
  with wt ih eq q
  have "waiting s' + {#r#} = (mset (buf (clientRequests s')) + in_hand s') + {#r#}"
    by (simp add: add.assoc)
  then show ?thesis
    unfolding account_inv_def by (simp only: add_right_cancel)
next
  case (Post w r v)
  with replies_invD [OF assms(2), of "resultChan r"] show ?thesis
    by (simp add: has_room_def)
next
  case (Take i r)
  with replies_invD [OF assms(2), of "resultChan r"] show ?thesis
    by simp
next
  case (Abandon i r)
  with assms(4) sum_list_map_update [of i "clients s" waits "CGone r"]
  show ?thesis by (auto simp: account_inv_def waiting_def in_hand_def)
qed (use assms(4) in \<open>auto simp: account_inv_def waiting_def in_hand_def\<close>)

lemma chan_inv_alt: "chan_inv s = chans_ok (length (replies s)) (map chan_of (clients s))"
  by (simp add: chan_inv_def chans_ok_def)

lemma chans_ok_fresh:
  assumes "chans_ok n cs" "i < length cs"
  shows "chans_ok (Suc n) (cs[i := Some n])"
  unfolding chans_ok_def
proof (intro allI impI)
  fix k ch
  assume k: "k < length (cs[i := Some n])" and kc: "cs[i := Some n] ! k = Some ch"
  show "ch < Suc n \<and> (\<forall>j<length (cs[i := Some n]). cs[i := Some n] ! j = Some ch \<longrightarrow> j = k)"
  proof (cases "k = i")
    case True
    with kc assms(2) have ch: "ch = n" by simp
    have "j = k" if "j < length cs" "cs[i := Some n] ! j = Some ch" for j
    proof (rule ccontr)
      assume "j \<noteq> k"
      with that True ch have "cs ! j = Some n" by simp
      with assms(1) that(1) have "n < n" unfolding chans_ok_def by blast
      then show False by simp
    qed
    with ch show ?thesis by simp
  next
    case False
    with kc k have old: "cs ! k = Some ch" "k < length cs" by simp_all
    with assms(1) have lt: "ch < n" and uniq: "\<And>j. j < length cs \<Longrightarrow> cs ! j = Some ch \<Longrightarrow> j = k"
      unfolding chans_ok_def by blast+
    have "j = k" if "j < length cs" "cs[i := Some n] ! j = Some ch" for j
    proof (cases "j = i")
      case True
      with that assms(2) lt show ?thesis by simp
    next
      case False
      with that uniq show ?thesis by simp
    qed
    with lt show ?thesis by simp
  qed
qed

lemma map_chan_update:
  "i < length cs \<Longrightarrow> chan_of c = chan_of (cs ! i) \<Longrightarrow>
   map chan_of (cs[i := c]) = map chan_of cs"
  by (auto simp: list_eq_iff_nth_eq nth_list_update)

lemma chan_inv_step:
  assumes "pstep M a s = Some s'" "chan_inv s"
  shows "chan_inv s'"
  using assms(1)
proof (cases rule: pstep_cases)
  case (Make i b g)
  then have "map chan_of (clients s') = (map chan_of (clients s))[i := Some (length (replies s))]"
    and "length (replies s') = Suc (length (replies s))"
    by (simp_all add: map_update chan_of_def)
  with chans_ok_fresh [of "length (replies s)" "map chan_of (clients s)" i] assms(2) Make(2)
  show ?thesis by (simp add: chan_inv_alt)
next
  case (Submit i r)
  with assms(2) map_chan_update [of i "clients s" "CWait r"] show ?thesis
    by (simp add: chan_inv_alt chan_of_def)
next
  case (Handoff i w r)
  with assms(2) map_chan_update [of i "clients s" "CWait r"] show ?thesis
    by (simp add: chan_inv_alt chan_of_def)
next
  case (Reply w i r v r')
  with assms(2) map_chan_update [of i "clients s" "CDone r' v"] show ?thesis
    by (simp add: chan_inv_alt chan_of_def)
next
  case (Take i r)
  with assms(2)
    map_chan_update [of i "clients s" "CDone r (hd (buf (replies s ! resultChan r)))"]
  show ?thesis
    by (simp add: chan_inv_alt chan_of_def)
next
  case (Abandon i r)
  with assms(2) map_chan_update [of i "clients s" "CGone r"] show ?thesis
    by (simp add: chan_inv_alt chan_of_def)
qed (use assms(2) in \<open>auto simp: chan_inv_alt\<close>)

lemma delivered_inv_update:
  assumes "delivered_inv s" "i < length (clients s)"
    and "\<not> answered (clients s ! i)" "\<not> answered c"
    and "delivered s' = delivered s" "clients s' = (clients s)[i := c]"
  shows "delivered_inv s'"
proof -
  have a: "\<exists>j<length (clients s'). \<exists>r. clients s' ! j = CDone r v \<and> resultChan r = ch"
    if "(ch, v) \<in> set (delivered s')" for ch v
  proof -
    from that assms(5) have "(ch, v) \<in> set (delivered s)" by simp
    with assms(1) obtain j r where j: "j < length (clients s)"
      "clients s ! j = CDone r v" "resultChan r = ch"
      unfolding delivered_inv_def by blast
    with assms(3) have "j \<noteq> i" by auto
    with j assms(6) show ?thesis by auto
  qed
  have b: "(resultChan r, v) \<in> set (delivered s') \<and> f r (args r) = v"
    if "k < length (clients s')" "clients s' ! k = CDone r v" for k r v
  proof -
    from that assms(4,6) have "k \<noteq> i" by (auto simp: nth_list_update split: if_splits)
    with that assms(6) have "k < length (clients s)" "clients s ! k = CDone r v" by simp_all
    with assms(1,5) show ?thesis unfolding delivered_inv_def by auto
  qed
  from assms(1,5) have "distinct (map fst (delivered s'))" by (simp add: delivered_inv_def)
  with a b show ?thesis unfolding delivered_inv_def by blast
qed

lemma delivered_inv_cong:
  "delivered_inv s \<Longrightarrow> delivered s' = delivered s \<Longrightarrow> clients s' = clients s \<Longrightarrow>
   delivered_inv s'"
  by (simp add: delivered_inv_def)

lemma delivered_inv_step:
  assumes "pstep M a s = Some s'" "replies_inv s" "chan_inv s" "account_inv s"
    and "delivered_inv s"
  shows "delivered_inv s'"
  using assms(1)
proof (cases rule: pstep_cases)
  case (Make i b g)
  show ?thesis
    by (rule delivered_inv_update [OF assms(5) Make(2),
          where c = "CSend \<lparr>args = b, f = g, resultChan = length (replies s)\<rparr>"])
       (simp_all add: Make)
next
  case (Submit i r)
  show ?thesis
    by (rule delivered_inv_update [OF assms(5) Submit(2), where c = "CWait r"])
       (simp_all add: Submit)
next
  case (Handoff i w r)
  show ?thesis
    by (rule delivered_inv_update [OF assms(5) Handoff(2), where c = "CWait r"])
       (simp_all add: Handoff)
next
  case (Abandon i r)
  show ?thesis
    by (rule delivered_inv_update [OF assms(5) Abandon(2), where c = "CGone r"])
       (simp_all add: Abandon)
next
  case (Post w r v)
  with replies_invD [OF assms(2), of "resultChan r"] show ?thesis
    by (simp add: has_room_def)
next
  case (Take i r)
  with replies_invD [OF assms(2), of "resultChan r"] show ?thesis
    by simp
next
  case (Reply w i r v r')
  from reply_same_request [OF assms(4,3) Reply(2,3,7,8,9)] have eq: "r' = r" .
  have fresh: "resultChan r \<notin> fst ` set (delivered s)"
  proof
    assume "resultChan r \<in> fst ` set (delivered s)"
    then obtain v' where "(resultChan r, v') \<in> set (delivered s)" by auto
    with assms(5) obtain j r'' where j: "j < length (clients s)"
      "clients s ! j = CDone r'' v'" "resultChan r'' = resultChan r"
      unfolding delivered_inv_def by blast
    then have "chan_of (clients s ! j) = Some (resultChan r)" by (simp add: chan_of_def)
    moreover from Reply(8,9) have "chan_of (clients s ! i) = Some (resultChan r)"
      by (simp add: chan_of_def)
    ultimately have "j = i" using assms(3) Reply(7) j(1) unfolding chan_inv_def by blast
    with j(2) Reply(8) show False by simp
  qed
  have d: "delivered s' = delivered s @ [(resultChan r, v)]"
    and c: "clients s' = (clients s)[i := CDone r v]"
    using Reply(10) eq by simp_all
  have a: "\<exists>j<length (clients s'). \<exists>q. clients s' ! j = CDone q u \<and> resultChan q = ch"
    if "(ch, u) \<in> set (delivered s')" for ch u
  proof (cases "(ch, u) = (resultChan r, v)")
    case True
    with c Reply(7) have "i < length (clients s')" "clients s' ! i = CDone r u" "resultChan r = ch"
      by simp_all
    then show ?thesis by blast
  next
    case False
    with that d have "(ch, u) \<in> set (delivered s)" by auto
    with assms(5) obtain j q where j: "j < length (clients s)"
      "clients s ! j = CDone q u" "resultChan q = ch"
      unfolding delivered_inv_def by blast
    with Reply(8) have "j \<noteq> i" by auto
    with j c show ?thesis by auto
  qed
  have b: "(resultChan q, u) \<in> set (delivered s') \<and> f q (args q) = u"
    if "k < length (clients s')" "clients s' ! k = CDone q u" for k q u
  proof (cases "k = i")
    case True
    with that c Reply(4) d show ?thesis by auto
  next
    case False
    with that c have "k < length (clients s)" "clients s ! k = CDone q u" by simp_all
    with assms(5) d show ?thesis unfolding delivered_inv_def by auto
  qed
  from assms(5) fresh d have "distinct (map fst (delivered s'))"
    by (simp add: delivered_inv_def)
  with a b show ?thesis unfolding delivered_inv_def by blast
qed (use assms(5) in \<open>auto intro: delivered_inv_cong\<close>)

section \<open>Every run of the pool is finite\<close>

lemma fuel_step:
  assumes "pstep M a s = Some s'"
  shows "fuel M s' < fuel M s"
proof -
  from assms have nc: "\<not> crashed s" by (rule pstep_alive)
  from assms show ?thesis
  proof (cases rule: pstep_cases)
    case (Spawn i)
    with nc show ?thesis by (simp add: fuel_def)
  next
    case (Quit i)
    with nc show ?thesis by (simp add: fuel_def)
  next
    case (Make i b g)
    with nc sum_list_map_update [of i "clients s" client_fuel
        "CSend \<lparr>args = b, f = g, resultChan = length (replies s)\<rparr>"]
    show ?thesis by (simp add: fuel_def make_chan_def)
  next
    case (Submit i r)
    with nc sum_list_map_update [of i "clients s" client_fuel "CWait r"]
    show ?thesis by (simp add: fuel_def push_def)
  next
    case (Handoff i w r)
    with nc sum_list_map_update [of i "clients s" client_fuel "CWait r"]
      sum_list_map_update [of w "workers s" worker_fuel "WGot r"]
    show ?thesis by (simp add: fuel_def)
  next
    case (SubmitClosed i r)
    with nc show ?thesis by (simp add: fuel_def)
  next
    case Close
    with nc show ?thesis by (simp add: fuel_def)
  next
    case (Pull w)
    then obtain x xs where b: "buf (clientRequests s) = x # xs"
      by (cases "buf (clientRequests s)") auto
    with Pull nc sum_list_map_update [of w "workers s" worker_fuel "WGot x"]
    show ?thesis by (simp add: fuel_def pop_def)
  next
    case (Exit w)
    with nc sum_list_map_update [of w "workers s" worker_fuel WExited]
    show ?thesis by (simp add: fuel_def)
  next
    case (Begin w r)
    with nc sum_list_map_update [of w "workers s" worker_fuel "WProcess r"]
    show ?thesis by (simp add: fuel_def)
  next
    case (Reply w i r v r')
    with nc sum_list_map_update [of i "clients s" client_fuel "CDone r' v"]
      sum_list_map_update [of w "workers s" worker_fuel WRange]
    show ?thesis by (simp add: fuel_def)
  next
    case (Post w r v)
    with nc sum_list_map_update [of w "workers s" worker_fuel WRange]
      sum_list_map_update [of "resultChan r" "replies s" "\<lambda>c. length (buf c)"
        "push v (replies s ! resultChan r)"]
    show ?thesis by (simp add: fuel_def push_def)
  next
    case (Take i r)
    then obtain x xs where b: "buf (replies s ! resultChan r) = x # xs"
      by (cases "buf (replies s ! resultChan r)") auto
    with Take nc sum_list_map_update [of i "clients s" client_fuel "CDone r x"]
      sum_list_map_update [of "resultChan r" "replies s" "\<lambda>c. length (buf c)"
        "pop (replies s ! resultChan r)"]
    show ?thesis by (simp add: fuel_def pop_def)
  next
    case (Abandon i r)
    with nc sum_list_map_update [of i "clients s" client_fuel "CGone r"]
    show ?thesis by (simp add: fuel_def)
  qed
qed

lemma fuel_run: "prun M as s = Some s' \<Longrightarrow> length as + fuel M s' \<le> fuel M s"
proof (induction as arbitrary: s)
  case Nil
  then show ?case by simp
next
  case (Cons a as)
  then obtain t where t: "pstep M a s = Some t" "prun M as t = Some s'"
    by (auto split: option.splits)
  from Cons.IH [OF t(2)] fuel_step [OF t(1)] show ?case by simp
qed

lemma fuel_init: "fuel M (pinit qcap jobs) = 2 * M + 8 * length jobs + 3"
proof -
  have "sum_list (map client_fuel (map (\<lambda>(a, g). CStart a g) jobs)) = 8 * length jobs"
    by (induction jobs) auto
  then show ?thesis by (simp add: fuel_def pinit_def make_chan_def)
qed

section \<open>Quiescent states\<close>

lemma candidate_Handoff:
  assumes "i < length (clients s)" "w < length (workers s)"
  shows "Handoff i w \<in> set (candidates s)"
proof -
  from assms(2) have "Handoff i w \<in> set (map (Handoff i) [0..<length (workers s)])"
    by simp
  with assms(1) show ?thesis
    unfolding candidates_def set_append set_concat set_map by (intro UnI1 UnI2) force
qed

lemma candidate_Reply:
  assumes "i < length (clients s)" "w < length (workers s)"
  shows "Reply w i \<in> set (candidates s)"
proof -
  from assms(1) have "Reply w i \<in> set (map (Reply w) [0..<length (clients s)])"
    by simp
  with assms(2) show ?thesis
    unfolding candidates_def set_append set_concat set_map by (intro UnI2) force
qed

lemma enabled_candidate:
  assumes "pstep M a s = Some s'" "\<not> external a"
  shows "a \<in> set (candidates s)"
  using assms
proof (cases rule: pstep_cases)
  case (Handoff i w r)
  with candidate_Handoff show ?thesis by simp
next
  case (Reply w i r v r')
  with candidate_Reply show ?thesis by simp
qed (auto simp: candidates_def)

lemma quiescentD: "quiescent M s \<Longrightarrow> \<not> external a \<Longrightarrow> pstep M a s = None"
proof (rule ccontr)
  assume q: "quiescent M s" and e: "\<not> external a" and "pstep M a s \<noteq> None"
  then obtain s' where st: "pstep M a s = Some s'" by auto
  from enabled_candidate [OF st e] q have "Option.is_none (pstep M a s)"
    by (simp add: quiescent_def list_all_iff)
  with st show False by simp
qed

lemma run_to_quiescence: "\<exists>as s'. prun M as s = Some s' \<and> quiescent M s'"
proof (induction "fuel M s" arbitrary: s rule: less_induct)
  case less
  show ?case
  proof (cases "quiescent M s")
    case True
    then have "prun M [] s = Some s \<and> quiescent M s" by simp
    then show ?thesis by blast
  next
    case False
    then obtain a where "\<not> Option.is_none (pstep M a s)"
      by (auto simp: quiescent_def list_all_iff)
    then obtain t where t: "pstep M a s = Some t" by (auto simp: Option.is_none_def)
    from less [OF fuel_step [OF t]] obtain as s' where "prun M as t = Some s'" "quiescent M s'"
      by blast
    with t have "prun M (a # as) s = Some s' \<and> quiescent M s'" by simp
    then show ?thesis by blast
  qed
qed

section \<open>The invariants hold in every reachable state of the pool\<close>

lemma clients_init:
  "i < length jobs \<Longrightarrow>
   clients (pinit qcap jobs) ! i = CStart (fst (jobs ! i)) (snd (jobs ! i))"
  by (simp add: pinit_def case_prod_unfold)

lemma waiting_init: "waiting (pinit qcap jobs) = {#}"
proof -
  have "sum_list (map waits (map (\<lambda>(a, g). CStart a g) jobs)) = {#}"
    by (induction jobs) auto
  then show ?thesis by (simp add: waiting_def pinit_def)
qed

lemma pool_inv_init: "pool_inv M (pinit qcap jobs)"
proof -
  have "chan_inv (pinit qcap jobs)"
    unfolding chan_inv_def using clients_init [of _ jobs qcap]
    by (simp add: chan_of_def) (simp add: pinit_def)
  moreover have "delivered_inv (pinit qcap jobs)"
    unfolding delivered_inv_def using clients_init [of _ jobs qcap]
    by (simp add: pinit_def)
  moreover have "account_inv (pinit qcap jobs)"
    using waiting_init [of qcap jobs]
    by (simp add: account_inv_def) (simp add: pinit_def in_hand_def make_chan_def)
  moreover have "replies_inv (pinit qcap jobs)" "staff_inv M (pinit qcap jobs)"
    "fifo_inv (pinit qcap jobs)" "order_inv (pinit qcap jobs)" "exit_inv (pinit qcap jobs)"
    "begun_inv (pinit qcap jobs)"
    by (simp_all add: pinit_def replies_inv_def staff_inv_def fifo_inv_def order_inv_def
        exit_inv_def begun_inv_def fetched_def make_chan_def)
  ultimately show ?thesis by (simp add: pool_inv_def)
qed

lemma pool_inv_step:
  assumes "pstep M a s = Some s'" "pool_inv M s"
  shows "pool_inv M s'"
  using assms replies_inv_step [OF assms(1)] staff_inv_step [OF assms(1)]
    fifo_inv_step [OF assms(1)] order_inv_step [OF assms(1)] exit_inv_step [OF assms(1)]
    begun_inv_step [OF assms(1)]
    account_inv_step [OF assms(1)] chan_inv_step [OF assms(1)]
    delivered_inv_step [OF assms(1)]
  by (simp add: pool_inv_def)

lemma pool_inv_run: "pool_inv M s \<Longrightarrow> prun M as s = Some s' \<Longrightarrow> pool_inv M s'"
proof (induction as arbitrary: s)
  case Nil
  then show ?case by simp
next
  case (Cons a as)
  then show ?case by (auto split: option.splits dest: pool_inv_step)
qed

lemma pool_inv_reach: "prun M as (pinit qcap jobs) = Some s \<Longrightarrow> pool_inv M s"
  using pool_inv_run [OF pool_inv_init] .

lemma jobs_run: "prun M as s = Some s' \<Longrightarrow> map job_of (clients s') = map job_of (clients s)"
proof (induction as arbitrary: s)
  case Nil
  then show ?case by simp
next
  case (Cons a as)
  then obtain t where t: "pstep M a s = Some t" "prun M as t = Some s'"
    by (auto split: option.splits)
  from Cons.IH [OF t(2)] jobs_step [OF t(1)] show ?case by simp
qed

lemma jobs_reach:
  assumes "prun M as (pinit qcap jobs) = Some s"
  shows "map job_of (clients s) = jobs"
proof -
  have "map job_of (clients (pinit qcap jobs)) = jobs"
    by (simp add: pinit_def case_prod_unfold comp_def)
  with jobs_run [OF assms] show ?thesis by simp
qed

section \<open>In a quiescent state every request has been answered\<close>

lemma quiescent_answered:
  assumes ri: "replies_inv s" and si: "staff_inv M s" and ei: "exit_inv s"
    and ai: "account_inv s" and ci: "chan_inv s"
    and M: "1 \<le> M" and nc: "\<not> crashed s"
    and ng: "\<not> list_ex gone (clients s)" and q: "quiescent M s"
  shows "list_all answered (clients s)"
proof -
  note dead = quiescentD [OF q]
  have "length (workers s) = M"
  proof (cases "srv s")
    case (Looping i)
    with nc dead [of Spawn] have "\<not> i < M"
      by (simp add: pstep_def split: if_splits)
    with si Looping show ?thesis by (simp add: staff_inv_def)
  next
    case Quitted
    with si show ?thesis by (simp add: staff_inv_def)
  qed
  with M have nw: "0 < length (workers s)" by simp
  have client_waits: "clients s ! j = CWait r"
    if "j < length (clients s)" "clients s ! j = CWait r \<or> clients s ! j = CGone r" for j r
  proof -
    from that(1) ng have "\<not> gone (clients s ! j)" by (auto simp: list_ex_iff)
    with that(2) show ?thesis by auto
  qed
  have rest: "workers s ! w = WRange \<or> workers s ! w = WExited" if w: "w < length (workers s)" for w
  proof (cases "workers s ! w")
    case (WGot r)
    with w nc dead [of "Begin w"] show ?thesis by (simp add: pstep_def)
  next
    case (WProcess r)
    from in_hand_owner [OF ai w] WProcess obtain j where j: "j < length (clients s)"
      "clients s ! j = CWait r \<or> clients s ! j = CGone r" by blast
    from client_waits [OF j] have cw: "clients s ! j = CWait r" .
    then have "chan_of (clients s ! j) = Some (resultChan r)" by (simp add: chan_of_def)
    with ci j(1) have lt: "resultChan r < length (replies s)" unfolding chan_inv_def by blast
    from replies_invD [OF ri lt] have c0: "cap (replies s ! resultChan r) = 0" by simp
    with WProcess w nc lt j(1) cw dead [of "Reply w j"] show ?thesis
      by (simp add: pstep_def held_def)
  qed simp_all
  have hand: "in_hand s = {#}"
  proof (rule multiset_eqI)
    fix x
    have "x \<notin># in_hand s"
    proof
      assume "x \<in># in_hand s"
      then obtain w where w: "w < length (workers s)"
        "workers s ! w = WGot x \<or> workers s ! w = WProcess x"
        unfolding in_hand_def in_sum_list_mset holding_iff by blast
      with rest [OF w(1)] show False by auto
    qed
    then show "count (in_hand s) x = count {#} x" by (simp add: not_in_iff)
  qed
  from nw rest have w0: "workers s ! 0 = WRange \<or> workers s ! 0 = WExited" by blast
  have ex_exit: "shut (clientRequests s) \<and> buf (clientRequests s) = []" if "workers s ! 0 = WExited"
  proof -
    from that nw have "list_ex exited (workers s)"
      unfolding list_ex_iff by (metis exited.simps(1) nth_mem)
    with ei show ?thesis by (simp add: exit_inv_def)
  qed
  have empty: "buf (clientRequests s) = []"
  proof (rule ccontr)
    assume ne: "buf (clientRequests s) \<noteq> []"
    from w0 show False
    proof
      assume "workers s ! 0 = WRange"
      with ne nw nc dead [of "Pull 0"] show False by (simp add: pstep_def idle_def)
    next
      assume "workers s ! 0 = WExited"
      with ex_exit ne show False by simp
    qed
  qed
  with ai hand have nowait: "waiting s = {#}" by (simp add: account_inv_def)
  have "answered (clients s ! i)" if i: "i < length (clients s)" for i
  proof (cases "clients s ! i")
    case (CStart b g)
    with i nc dead [of "Make i"] show ?thesis by (simp add: pstep_def)
  next
    case (CSend r)
    show ?thesis
    proof (cases "shut (clientRequests s)")
      case True
      with CSend i nc dead [of "SubmitClosed i"] show ?thesis by (simp add: pstep_def)
    next
      case False
      with w0 ex_exit have r0: "workers s ! 0 = WRange" by auto
      from False CSend i nc dead [of "Submit i"] have "\<not> has_room (clientRequests s)"
        by (simp add: pstep_def split: if_splits)
      with empty have "cap (clientRequests s) = 0" by (simp add: has_room_def)
      with False CSend i nc r0 nw dead [of "Handoff i 0"] show ?thesis
        by (simp add: pstep_def idle_def)
    qed
  next
    case (CWait r)
    with i have "r \<in># waiting s"
      unfolding waiting_def in_sum_list_mset waits_iff by blast
    with nowait show ?thesis by simp
  next
    case (CGone r)
    with client_waits [OF i, of r] show ?thesis by simp
  qed simp
  then show ?thesis by (simp add: list_all_length)
qed

section \<open>The concrete runs, evaluated\<close>

lemmas scene_evals = pool_evals quiescent_def candidates_def

lemma serve_all_run: "prun 1 serve_all (pinit 1 [job345, job345]) = Some all_served"
  by (simp add: serve_all_def all_served_def pool_evals)

lemma all_served_quiescent: "quiescent 1 all_served"
  by (simp add: all_served_def scene_evals)

lemma in_flight_run:
  "prun 1 [Spawn, Make 0, Submit 0, Pull 0, Begin 0] (pinit 1 [job345]) = Some in_flight"
  by (simp add: in_flight_def pool_evals)

lemma after_quit_run: "prun 1 [Spawn, Quit, Make 0] (pinit 1 [job345]) = Some after_quit"
  by (simp add: after_quit_def pool_evals)

lemma undrained_run:
  "prun 1 [Spawn, Make 0, Make 1, Submit 0, Submit 1, Pull 0, Begin 0, Quit]
     (pinit 2 [job345, job345]) = Some undrained"
  by (simp add: undrained_def pool_evals)

lemma early_exit_run: "prun 1 [Spawn, Close, Exit 0] (pinit 2 []) = Some early_exit"
  by (simp add: early_exit_def pool_evals)

lemma stuck_run:
  "prun 1 [Spawn, Quit, Make 0, Make 1, Submit 0, Submit 1, Pull 0, Begin 0, Abandon 0, Close]
     (pinit 2 [job345, job345]) = Some stuck"
  by (simp add: stuck_def pool_evals)

lemma stuck_quiescent: "quiescent 1 stuck"
  by (simp add: stuck_def scene_evals)

lemma killed_run:
  "prun 1 [Spawn, Make 0, Make 1, Submit 0, Close, SubmitClosed 1]
     (pinit 2 [job345, job345]) = Some killed"
  by (simp add: killed_def pool_evals)

lemma killed_quiescent: "quiescent 1 killed"
  by (simp add: killed_def scene_evals)

lemma unserved_run: "prun 0 [Quit, Make 0, Submit 0, Close] (pinit 1 [job345]) = Some unserved"
  by (simp add: unserved_def pool_evals)

lemma unserved_quiescent: "quiescent 0 unserved"
  by (simp add: unserved_def scene_evals)

lemma single_entry:
  "distinct (map fst xs) \<Longrightarrow> (k, v) \<in> set xs \<Longrightarrow> filter (\<lambda>e. fst e = k) xs = [(k, v)]"
proof (induction xs)
  case Nil
  then show ?case by simp
next
  case (Cons x xs)
  show ?case
  proof (cases "x = (k, v)")
    case True
    with Cons.prems have "k \<notin> fst ` set xs" by auto
    then have "filter (\<lambda>e. fst e = k) xs = []"
      by (auto simp: filter_empty_conv)
    with True show ?thesis by simp
  next
    case False
    with Cons.prems have in_xs: "(k, v) \<in> set xs" and d: "distinct (map fst xs)"
      and nx: "fst x \<notin> fst ` set xs" by auto
    from in_xs have "k \<in> fst ` set xs" by force
    with nx have "fst x \<noteq> k" by auto
    with Cons.IH [OF d in_xs] show ?thesis by simp
  qed
qed

section \<open>Requests are taken from the queue in the order they were sent\<close>

text \<open>
  C7: in every reachable state the requests received from the queue so far are, in
  order, the first requests whose send completed, and the queue holds the rest in
  order: handlers receive in the order of sending, however many handlers there are.
  With \<open>MaxOutstanding = 1\<close> (one handler) the calls of \<open>process\<close> so far are, in order,
  the first requests sent; the one request the handler may hold without having called
  \<open>process\<close> yet comes next. With more handlers nothing is said about the order in
  which calls of \<open>process\<close> begin or end.
\<close>

theorem requests_begun_in_fifo_order:
  assumes "prun MaxOutstanding as (pinit qcap jobs) = Some s"
  shows "submitted s = pulled s @ buf (clientRequests s)
         \<and> (MaxOutstanding = 1 \<longrightarrow>
              submitted s = begun s @ fetched s @ buf (clientRequests s))"
proof -
  from pool_inv_reach [OF assms] have fi: "fifo_inv s" and oi: "order_inv s"
    and si: "staff_inv MaxOutstanding s"
    by (simp_all add: pool_inv_def)
  from si have "length (workers s) \<le> MaxOutstanding"
    by (auto simp: staff_inv_def split: srvpc.splits)
  with oi have "MaxOutstanding = 1 \<longrightarrow> pulled s = begun s @ fetched s"
    by (simp add: order_inv_def)
  with fi show ?thesis by (auto simp: fifo_inv_def)
qed

theorem requests_begun_in_fifo_order_witness:
  "prun 1 serve_all (pinit 1 [job345, job345]) = Some all_served
   \<and> (1::nat) = 1
   \<and> submitted all_served = pulled all_served @ buf (clientRequests all_served)
   \<and> submitted all_served
       = begun all_served @ fetched all_served @ buf (clientRequests all_served)
   \<and> begun all_served = [request345 0, request345 1]"
proof -
  have one: "(1::nat) = 1" by simp
  have b: "begun all_served = [request345 0, request345 1]" by (simp add: all_served_def)
  from requests_begun_in_fifo_order [OF serve_all_run] one
  have "submitted all_served = pulled all_served @ buf (clientRequests all_served)"
    and "submitted all_served
           = begun all_served @ fetched all_served @ buf (clientRequests all_served)"
    by blast+
  with serve_all_run one b show ?thesis by blast
qed

text \<open>
  With two handlers the order of the calls of \<open>process\<close>, and of the answers, is free:
  here the request sent second is begun first and answered first.
\<close>

lemma completion_order_is_free:
  "map_option submitted
     (prun 2 [Spawn, Spawn, Make 0, Make 1, Submit 0, Submit 1, Pull 0, Pull 1,
              Begin 1, Begin 0, Reply 1 1, Reply 0 0] (pinit 2 [job345, job345]))
     = Some [request345 0, request345 1]
   \<and> map_option begun
     (prun 2 [Spawn, Spawn, Make 0, Make 1, Submit 0, Submit 1, Pull 0, Pull 1,
              Begin 1, Begin 0, Reply 1 1, Reply 0 0] (pinit 2 [job345, job345]))
     = Some [request345 1, request345 0]
   \<and> map_option delivered
     (prun 2 [Spawn, Spawn, Make 0, Make 1, Submit 0, Submit 1, Pull 0, Pull 1,
              Begin 1, Begin 0, Reply 1 1, Reply 0 0] (pinit 2 [job345, job345]))
     = Some [(1, 12), (0, 12)]"
  by (simp add: pool_evals)

section \<open>Sending after \<open>quit\<close>\<close>

text \<open>
  C3, as amended: the source has no \<open>Closed\<close> condition, and receiving from \<open>quit\<close>
  only ends \<open>Serve\<close> itself. Whether a send on \<open>clientRequests\<close> can complete, and what
  it does to the queue, to the handlers and to the client, is the same whatever place
  \<open>Serve\<close> is at: a send made after \<open>quit\<close> was received is accepted exactly as one made
  before.
\<close>

theorem send_ignores_quit:
  "pstep M (Submit i) (s\<lparr>srv := p\<rparr>) = map_option (\<lambda>t. t\<lparr>srv := p\<rparr>) (pstep M (Submit i) s)
   \<and> pstep M (Handoff i w) (s\<lparr>srv := p\<rparr>)
       = map_option (\<lambda>t. t\<lparr>srv := p\<rparr>) (pstep M (Handoff i w) s)
   \<and> (srv s = Quitted \<and> \<not> crashed s \<and> i < length (clients s) \<and> clients s ! i = CSend r
        \<and> \<not> shut (clientRequests s) \<and> has_room (clientRequests s)
      \<longrightarrow> pstep M (Submit i) s
            = Some (s\<lparr>clientRequests := push r (clientRequests s),
                       clients := (clients s)[i := CWait r],
                       submitted := submitted s @ [r]\<rparr>))"
  by (simp add: pstep_def idle_def split: cpc.splits)

theorem send_ignores_quit_witness:
  "srv after_quit = Quitted \<and> \<not> crashed after_quit \<and> 0 < length (clients after_quit)
   \<and> clients after_quit ! 0 = CSend (request345 0)
   \<and> \<not> shut (clientRequests after_quit) \<and> has_room (clientRequests after_quit)
   \<and> pstep 1 (Submit 0) after_quit
       = Some (after_quit\<lparr>clientRequests := push (request345 0) (clientRequests after_quit),
                          clients := (clients after_quit)[0 := CWait (request345 0)],
                          submitted := submitted after_quit @ [request345 0]\<rparr>)"
proof -
  have h: "srv after_quit = Quitted" "\<not> crashed after_quit" "0 < length (clients after_quit)"
    "clients after_quit ! 0 = CSend (request345 0)"
    "\<not> shut (clientRequests after_quit)" "has_room (clientRequests after_quit)"
    by (simp_all add: after_quit_def has_room_def)
  from send_ignores_quit [where M = 1 and i = 0 and s = after_quit and r = "request345 0"] h
  have "pstep 1 (Submit 0) after_quit
          = Some (after_quit\<lparr>clientRequests := push (request345 0) (clientRequests after_quit),
                             clients := (clients after_quit)[0 := CWait (request345 0)],
                             submitted := submitted after_quit @ [request345 0]\<rparr>)"
    by blast
  with h show ?thesis by blast
qed

text \<open>
  C3, as stated, fails: \<open>Serve\<close> starts its one handler and receives from \<open>quit\<close>; the
  client then builds its request and sends it. The send completes, no error is
  returned, and the request is in the queue.
\<close>

theorem send_after_quit_is_accepted:
  "prun 1 [Spawn, Quit, Make 0] (pinit 1 [job345]) = Some after_quit
   \<and> srv after_quit = Quitted
   \<and> pstep 1 (Submit 0) after_quit
       = Some (after_quit\<lparr>clientRequests := \<lparr>buf = [request345 0], cap = 1, shut = False\<rparr>,
                          clients := [CWait (request345 0)],
                          submitted := [request345 0]\<rparr>)"
  using after_quit_run by (simp add: after_quit_def pool_evals)

section \<open>Leaving the handler loop, and returning from \<open>Serve\<close>\<close>

text \<open>
  C4, as amended: in every reachable state, a handler that has left its loop has done
  so with \<open>clientRequests\<close> closed and empty (and the queue is still closed and empty):
  the \<open>range\<close> loop ends on nothing else, and it never looks at \<open>quit\<close>. No request is
  dropped: every request sent is still in the queue or was received by a handler, and
  every request received was passed to \<open>process\<close> or is held by a handler about to
  call it. \<open>Serve\<close>,
  once its loop is over, returns as soon as a value arrives on \<open>quit\<close>, whatever the
  queue and the handlers hold.
\<close>

theorem handler_leaves_only_closed_empty_queue:
  assumes "prun MaxOutstanding as (pinit qcap jobs) = Some s"
  shows "(\<forall>w<length (workers s). workers s ! w = WExited \<longrightarrow>
            shut (clientRequests s) \<and> buf (clientRequests s) = [])
         \<and> submitted s = pulled s @ buf (clientRequests s)
         \<and> mset (pulled s) = mset (begun s) + mset (fetched s)
         \<and> (\<not> crashed s \<and> srv s = Looping MaxOutstanding \<longrightarrow>
              pstep MaxOutstanding Quit s = Some (s\<lparr>srv := Quitted\<rparr>))"
proof -
  from pool_inv_reach [OF assms] have ei: "exit_inv s" and ai: "fifo_inv s"
    and bi: "begun_inv s"
    by (simp_all add: pool_inv_def)
  have "shut (clientRequests s) \<and> buf (clientRequests s) = []"
    if "w < length (workers s)" "workers s ! w = WExited" for w
  proof -
    from that have "list_ex exited (workers s)"
      unfolding list_ex_iff by (metis exited.simps(1) nth_mem)
    with ei show ?thesis by (simp add: exit_inv_def)
  qed
  with ai bi show ?thesis by (simp add: fifo_inv_def begun_inv_def pstep_def)
qed

theorem handler_leaves_only_closed_empty_queue_witness:
  "prun 1 [Spawn, Close, Exit 0] (pinit 2 []) = Some early_exit
   \<and> 0 < length (workers early_exit) \<and> workers early_exit ! 0 = WExited
   \<and> shut (clientRequests early_exit) \<and> buf (clientRequests early_exit) = []
   \<and> \<not> crashed early_exit \<and> srv early_exit = Looping 1
   \<and> pstep 1 Quit early_exit = Some (early_exit\<lparr>srv := Quitted\<rparr>)"
proof -
  have h: "0 < length (workers early_exit)" "workers early_exit ! 0 = WExited"
    "\<not> crashed early_exit" "srv early_exit = Looping 1"
    by (simp_all add: early_exit_def)
  from handler_leaves_only_closed_empty_queue [OF early_exit_run] h
  have "shut (clientRequests early_exit) \<and> buf (clientRequests early_exit) = []"
    and "pstep 1 Quit early_exit = Some (early_exit\<lparr>srv := Quitted\<rparr>)"
    by blast+
  with early_exit_run h show ?thesis by blast
qed

text \<open>
  C4, as stated, fails twice. \<open>Serve\<close> returns on \<open>quit\<close> while one request is still in
  the queue and another is inside \<open>process\<close>, with no answer delivered. And a handler
  leaves its loop, the queue being closed and empty, although nothing was ever sent on
  \<open>quit\<close> (\<open>Serve\<close> still waits there).
\<close>

theorem serve_returns_before_drain:
  "prun 1 [Spawn, Make 0, Make 1, Submit 0, Submit 1, Pull 0, Begin 0, Quit]
     (pinit 2 [job345, job345]) = Some undrained
   \<and> srv undrained = Quitted
   \<and> buf (clientRequests undrained) = [request345 1]
   \<and> workers undrained = [WProcess (request345 0)]
   \<and> delivered undrained = []
   \<and> prun 1 [Spawn, Close, Exit 0] (pinit 2 []) = Some early_exit
   \<and> workers early_exit = [WExited]
   \<and> srv early_exit = Looping 1"
  using undrained_run early_exit_run by (simp add: undrained_def early_exit_def)

section \<open>Each reply channel carries exactly one value\<close>

lemma answered_iff: "answered c \<longleftrightarrow> (\<exists>r v. c = CDone r v)"
  by (cases c) simp_all

text \<open>
  C2, as amended (with \<open>process(r)\<close> writing \<open>r.f(r.args)\<close> on \<open>r.resultChan\<close>): from the
  start, under any interleaving, no reply channel is ever written twice, and every run
  is finite (its length is bounded) and can be continued to a state where no goroutine
  can take a step. When \<open>MaxOutstanding\<close> is at least 1, the program
  has not died of a panic and no client has given up waiting, then in a state where no
  goroutine can take a step every client has its answer: exactly one value was written
  on its channel, and it is the result of its own function on its own arguments.
\<close>

theorem reply_written_exactly_once:
  assumes "prun MaxOutstanding as (pinit qcap jobs) = Some s"
  shows "distinct (map fst (delivered s))
         \<and> length as \<le> 2 * MaxOutstanding + 8 * length jobs + 3
         \<and> (\<exists>bs t. prun MaxOutstanding bs s = Some t \<and> quiescent MaxOutstanding t)
         \<and> (1 \<le> MaxOutstanding \<and> \<not> crashed s \<and> \<not> list_ex gone (clients s)
              \<and> quiescent MaxOutstanding s
            \<longrightarrow> (\<forall>i<length jobs. \<exists>r v.
                    clients s ! i = CDone r v \<and> (args r, f r) = jobs ! i
                    \<and> f r (args r) = v
                    \<and> filter (\<lambda>e. fst e = resultChan r) (delivered s)
                        = [(resultChan r, v)]))"
proof -
  note inv = pool_inv_reach [OF assms]
  then have di: "delivered_inv s" and ri: "replies_inv s"
    and si: "staff_inv MaxOutstanding s" and ei: "exit_inv s"
    and ai: "account_inv s" and ci: "chan_inv s"
    by (simp_all add: pool_inv_def)
  then have d: "distinct (map fst (delivered s))" by (simp add: delivered_inv_def)
  from fuel_run [OF assms] fuel_init [of MaxOutstanding qcap jobs]
  have b: "length as \<le> 2 * MaxOutstanding + 8 * length jobs + 3" by simp
  have "\<exists>r v. clients s ! i = CDone r v \<and> (args r, f r) = jobs ! i
           \<and> f r (args r) = v
           \<and> filter (\<lambda>e. fst e = resultChan r) (delivered s) = [(resultChan r, v)]"
    if h: "1 \<le> MaxOutstanding" "\<not> crashed s" "\<not> list_ex gone (clients s)"
      "quiescent MaxOutstanding s" and i: "i < length jobs" for i
  proof -
    from jobs_reach [OF assms] have j: "map job_of (clients s) = jobs" .
    with i have il: "i < length (clients s)" by auto
    from quiescent_answered [OF ri si ei ai ci h] il have "answered (clients s ! i)"
      by (simp add: list_all_length)
    then obtain r v where c: "clients s ! i = CDone r v" by (auto simp: answered_iff)
    from j il have "job_of (clients s ! i) = jobs ! i" by (metis nth_map)
    with c have own: "(args r, f r) = jobs ! i" by simp
    from di il c have m: "(resultChan r, v) \<in> set (delivered s)" and v: "f r (args r) = v"
      unfolding delivered_inv_def by blast+
    from single_entry [OF d m] c own v show ?thesis by blast
  qed
  with d b run_to_quiescence [of MaxOutstanding s] show ?thesis by blast
qed

theorem reply_written_exactly_once_witness:
  "prun 1 serve_all (pinit 1 [job345, job345]) = Some all_served
   \<and> (1::nat) \<le> 1 \<and> \<not> crashed all_served \<and> \<not> list_ex gone (clients all_served)
   \<and> quiescent 1 all_served
   \<and> distinct (map fst (delivered all_served))
   \<and> length serve_all \<le> 2 * 1 + 8 * length [job345, job345] + 3
   \<and> (1::nat) < length [job345, job345]
   \<and> clients all_served ! 1 = CDone (request345 1) 12
   \<and> (args (request345 1), f (request345 1)) = [job345, job345] ! 1
   \<and> f (request345 1) (args (request345 1)) = 12
   \<and> filter (\<lambda>e. fst e = resultChan (request345 1)) (delivered all_served)
       = [(resultChan (request345 1), 12)]"
proof -
  have h: "(1::nat) \<le> 1" "\<not> crashed all_served" "\<not> list_ex gone (clients all_served)"
    by (simp_all add: all_served_def)
  have i: "(1::nat) < length [job345, job345]" by simp
  have c: "clients all_served ! 1 = CDone (request345 1) 12" by (simp add: all_served_def)
  note t = reply_written_exactly_once [OF serve_all_run]
  from t have d: "distinct (map fst (delivered all_served))"
    and b: "length serve_all \<le> 2 * 1 + 8 * length [job345, job345] + 3"
    by blast+
  from t h all_served_quiescent i obtain r v where
    rv: "clients all_served ! 1 = CDone r v" "(args r, f r) = [job345, job345] ! 1"
      "f r (args r) = v"
      "filter (\<lambda>e. fst e = resultChan r) (delivered all_served) = [(resultChan r, v)]"
    by blast
  from rv(1) c have "r = request345 1" "v = 12" by simp_all
  with rv have "(args (request345 1), f (request345 1)) = [job345, job345] ! 1"
    "f (request345 1) (args (request345 1)) = 12"
    "filter (\<lambda>e. fst e = resultChan (request345 1)) (delivered all_served)
       = [(resultChan (request345 1), 12)]"
    by simp_all
  with serve_all_run h all_served_quiescent d b i c show ?thesis by blast
qed

text \<open>
  C2, as stated, fails in three ways; each time a request was accepted by the queue, no
  goroutine can take a step any more, and nothing was written on the request's reply
  channel. With \<open>MaxOutstanding = 0\<close> no handler exists. With one handler, the queue
  was closed and the next client's send on it panicked: the program died. With one
  handler, the client of an earlier request gave up waiting and the handler is blocked
  at its write.
\<close>

theorem accepted_request_never_answered:
  "prun 0 [Quit, Make 0, Submit 0, Close] (pinit 1 [job345]) = Some unserved
   \<and> quiescent 0 unserved \<and> \<not> crashed unserved
   \<and> clients unserved = [CWait (request345 0)] \<and> delivered unserved = []
   \<and> prun 1 [Spawn, Make 0, Make 1, Submit 0, Close, SubmitClosed 1]
        (pinit 2 [job345, job345]) = Some killed
   \<and> quiescent 1 killed \<and> crashed killed
   \<and> clients killed ! 0 = CWait (request345 0) \<and> delivered killed = []
   \<and> prun 1 [Spawn, Quit, Make 0, Make 1, Submit 0, Submit 1, Pull 0, Begin 0,
              Abandon 0, Close]
        (pinit 2 [job345, job345]) = Some stuck
   \<and> quiescent 1 stuck \<and> \<not> crashed stuck
   \<and> clients stuck ! 1 = CWait (request345 1) \<and> delivered stuck = []"
  using unserved_run unserved_quiescent killed_run killed_quiescent stuck_run stuck_quiescent
  by (simp add: unserved_def killed_def stuck_def)

section \<open>The write on a reply channel needs the client at its receive\<close>

text \<open>
  C8, as amended (with \<open>process(r)\<close> writing \<open>r.f(r.args)\<close> on \<open>r.resultChan\<close>): the reply
  channel is made by \<open>make(chan int)\<close>, so its capacity is zero and it never has room
  for a value. In every reachable state, for a handler inside \<open>process\<close> with a request,
  the write cannot complete into a buffer; it completes with
  client \<open>i\<close> exactly when client \<open>i\<close> is the one that sent this request and is at its
  receive. That client either waits, as the client of the notes does, or has given up.
\<close>

theorem reply_write_needs_receiver:
  assumes "prun MaxOutstanding as (pinit qcap jobs) = Some s"
    and "w < length (workers s)" "workers s ! w = WProcess r"
    and "\<not> crashed s"
  shows "resultChan r < length (replies s)
         \<and> cap (replies s ! resultChan r) = 0
         \<and> \<not> has_room (replies s ! resultChan r)
         \<and> pstep MaxOutstanding (Post w) s = None
         \<and> (pstep MaxOutstanding (Reply w i) s \<noteq> None
              \<longleftrightarrow> i < length (clients s) \<and> clients s ! i = CWait r)
         \<and> (\<exists>j<length (clients s). clients s ! j = CWait r \<or> clients s ! j = CGone r)"
proof -
  from pool_inv_reach [OF assms(1)] have ri: "replies_inv s" and ai: "account_inv s"
    and ci: "chan_inv s"
    by (simp_all add: pool_inv_def)
  from in_hand_owner [OF ai assms(2)] assms(3)
  obtain j where j: "j < length (clients s)" "clients s ! j = CWait r \<or> clients s ! j = CGone r"
    by blast
  then have "chan_of (clients s ! j) = Some (resultChan r)" by (auto simp: chan_of_def)
  with ci j(1) have lt: "resultChan r < length (replies s)" unfolding chan_inv_def by blast
  from replies_invD [OF ri lt] have c0: "cap (replies s ! resultChan r) = 0"
    and nr: "\<not> has_room (replies s ! resultChan r)"
    by (simp_all add: has_room_def)
  from assms(2,3) nr have np: "pstep MaxOutstanding (Post w) s = None"
    by (simp add: pstep_def held_def)
  have "pstep MaxOutstanding (Reply w i) s \<noteq> None
          \<longleftrightarrow> i < length (clients s) \<and> clients s ! i = CWait r"
  proof
    assume "pstep MaxOutstanding (Reply w i) s \<noteq> None"
    then obtain t where "pstep MaxOutstanding (Reply w i) s = Some t" by auto
    then show "i < length (clients s) \<and> clients s ! i = CWait r"
    proof (cases rule: pstep_cases)
      case (Reply w' i' r0 v0 r')
      with assms(3) have "r0 = r" by simp
      with Reply reply_same_request [OF ai ci assms(2,3), of i r'] show ?thesis by simp
    qed simp_all
  next
    assume "i < length (clients s) \<and> clients s ! i = CWait r"
    with assms(2-4) lt c0 show "pstep MaxOutstanding (Reply w i) s \<noteq> None"
      by (simp add: pstep_def held_def)
  qed
  with lt c0 nr np j show ?thesis by blast
qed

theorem reply_write_needs_receiver_witness:
  "prun 1 [Spawn, Make 0, Submit 0, Pull 0, Begin 0] (pinit 1 [job345]) = Some in_flight
   \<and> 0 < length (workers in_flight) \<and> workers in_flight ! 0 = WProcess (request345 0)
   \<and> \<not> crashed in_flight
   \<and> cap (replies in_flight ! resultChan (request345 0)) = 0
   \<and> \<not> has_room (replies in_flight ! resultChan (request345 0))
   \<and> pstep 1 (Post 0) in_flight = None
   \<and> clients in_flight ! 0 = CWait (request345 0)
   \<and> pstep 1 (Reply 0 0) in_flight \<noteq> None"
proof -
  have h: "0 < length (workers in_flight)" "workers in_flight ! 0 = WProcess (request345 0)"
    "\<not> crashed in_flight"
    by (simp_all add: in_flight_def)
  have c: "0 < length (clients in_flight)" "clients in_flight ! 0 = CWait (request345 0)"
    by (simp_all add: in_flight_def)
  from reply_write_needs_receiver [OF in_flight_run h, of 0] c
  have "cap (replies in_flight ! resultChan (request345 0)) = 0"
    "\<not> has_room (replies in_flight ! resultChan (request345 0))"
    "pstep 1 (Post 0) in_flight = None"
    "pstep 1 (Reply 0 0) in_flight \<noteq> None"
    by blast+
  with in_flight_run h c show ?thesis by blast
qed

text \<open>
  C8, as stated, fails: the first client gives up waiting while its request is inside
  \<open>process\<close>. Its reply channel has capacity zero and no room; the handler's write can
  complete neither into a buffer nor with any client; no goroutine can take a step, and
  the second request stays in the queue for ever.
\<close>

theorem unread_reply_blocks_handler:
  "prun 1 [Spawn, Quit, Make 0, Make 1, Submit 0, Submit 1, Pull 0, Begin 0,
           Abandon 0, Close]
     (pinit 2 [job345, job345]) = Some stuck
   \<and> workers stuck = [WProcess (request345 0)]
   \<and> clients stuck = [CGone (request345 0), CWait (request345 1)]
   \<and> cap (replies stuck ! resultChan (request345 0)) = 0
   \<and> \<not> has_room (replies stuck ! resultChan (request345 0))
   \<and> pstep 1 (Post 0) stuck = None
   \<and> pstep 1 (Reply 0 0) stuck = None
   \<and> pstep 1 (Reply 0 1) stuck = None
   \<and> quiescent 1 stuck
   \<and> buf (clientRequests stuck) = [request345 1]"
  using stuck_run stuck_quiescent by (simp add: stuck_def scene_evals)

section \<open>Failing computations: the error is delivered as a plain int\<close>



















end
